theory Spec2Isabelle
  imports Main "HOL-Library.Word"
begin

section \<open>Array-backed doubly linked list with generation-tagged handles\<close>

text \<open>
  The development embeds the two list classes of \<^verbatim>\<open>src/arr-list\<close>:
  \<^verbatim>\<open>ArrayLinkedList\<close> of \<^verbatim>\<open>array_linked_list_fast_soa.hpp\<close> (four parallel
  vectors, suffix \<open>_soa\<close> below) and \<^verbatim>\<open>arrlist_slow::ArrayLinkedList\<close> of
  \<^verbatim>\<open>array_linked_list_slow_aos.hpp\<close> (one vector of nodes, suffix \<open>_aos\<close>).

  Conventions of the embedding.
  \<^item> \<^verbatim>\<open>int\<close> indices are HOL integers; the one place where the source converts a
    \<^verbatim>\<open>size_t\<close> to \<^verbatim>\<open>int\<close> (the constructor) is written out as a 32-bit
    two's complement conversion.
  \<^item> \<^verbatim>\<open>std::uint32_t\<close> generations are \<open>32 word\<close>; \<^verbatim>\<open>std::size_t\<close> (the
    member \<^verbatim>\<open>size_\<close>, the constructor's argument) is \<open>64 word\<close>; increments and
    decrements wrap around as in the source.
  \<^item> A \<^verbatim>\<open>std::vector\<close> is a list; \<^verbatim>\<open>v[i]\<close> is \<open>v ! nat i\<close> and is meaningful
    only for \<open>0 \<le> i < length v\<close> (the source has undefined behaviour elsewhere).
    The predicate \<open>mem_safe\<close> below states that every index the operations can
    read is in range; it is proved to hold after construction with a capacity of at
    most \<open>2 ^ 31\<close> and to be kept by every operation, whatever its arguments.
  \<^item> An exception is a value of type \<open>error\<close>; an operation returns its outcome
    together with the state of the object at the moment it returns or throws.
  \<^item> The element type \<^verbatim>\<open>T\<close> is a type variable; its default value \<^verbatim>\<open>T{}\<close> is a
    parameter of the constructor. Moving a value out of a slot leaves the slot's
    content as it was (the payloads of the repository are trivially copyable).
\<close>

subsection \<open>Handles, errors, machine integers\<close>

type_synonym u32 = "32 word"

type_synonym usize = "64 word"

record NodeHandle =
  index :: int
  generation :: u32

text \<open>
  The exceptions of the source, named after the error kinds of the specification:
  \<^item> \<open>InvalidCapacity\<close>: \<^verbatim>\<open>std::invalid_argument("capacity must be greater than zero")\<close>
  \<^item> \<open>CapacityExhausted\<close>: \<^verbatim>\<open>std::overflow_error("no free slots left in the list")\<close>
  \<^item> \<open>InvalidHandle\<close>: \<^verbatim>\<open>std::out_of_range("node handle is invalid or stale")\<close>
  \<^item> \<open>NoSuccessor\<close>: \<^verbatim>\<open>std::out_of_range("no node exists after the given index")\<close>
  \<^item> \<open>Empty\<close>: \<^verbatim>\<open>std::out_of_range("list is empty")\<close>
  \<^item> \<open>InvalidIndex\<close>: \<^verbatim>\<open>std::out_of_range("node index is invalid")\<close>
\<close>

datatype error =
  InvalidCapacity | CapacityExhausted | InvalidHandle | NoSuccessor | Empty | InvalidIndex

definition kNull :: int where
  "kNull = - 1"

definition static_cast_int :: "nat \<Rightarrow> int" where
  "static_cast_int i = sint (word_of_nat i :: 32 word)"

subsection \<open>Column layout: \<^verbatim>\<open>array_linked_list_fast_soa.hpp\<close>\<close>

record 'a soa =
  values_soa :: "'a list"
  next_soa :: "int list"
  prev_soa :: "int list"
  generations_soa :: "u32 list"
  free_list_soa :: "int list"
  head_soa :: int
  tail_soa :: int
  size_soa :: usize

text \<open>The constructor's loop \<^verbatim>\<open>for (i = capacity; i-- > 0;) free_list_.push_back(int(i))\<close>.\<close>

fun fill_free_list :: "nat \<Rightarrow> int list \<Rightarrow> int list" where
  "fill_free_list 0 fl = fl"
| "fill_free_list (Suc i) fl = fill_free_list i (fl @ [static_cast_int i])"

definition ArrayLinkedList_soa :: "'a \<Rightarrow> usize \<Rightarrow> error + 'a soa" where
  "ArrayLinkedList_soa dflt capacity =
     (if capacity = 0 then Inl InvalidCapacity
      else Inr \<lparr> values_soa = replicate (unat capacity) dflt,
                 next_soa = replicate (unat capacity) kNull,
                 prev_soa = replicate (unat capacity) kNull,
                 generations_soa = replicate (unat capacity) 0,
                 free_list_soa = fill_free_list (unat capacity) [],
                 head_soa = kNull,
                 tail_soa = kNull,
                 size_soa = 0 \<rparr>)"

definition capacity_soa :: "'a soa \<Rightarrow> nat" where
  "capacity_soa s = length (values_soa s)"

definition empty_soa :: "'a soa \<Rightarrow> bool" where
  "empty_soa s = (size_soa s = 0)"

definition allocate_node_soa :: "'a \<Rightarrow> 'a soa \<Rightarrow> (error + NodeHandle) \<times> 'a soa" where
  "allocate_node_soa v s =
     (if free_list_soa s = [] then (Inl CapacityExhausted, s)
      else
        let idx = last (free_list_soa s);
            s1 = s\<lparr>free_list_soa := butlast (free_list_soa s)\<rparr>;
            s2 = s1\<lparr>values_soa := (values_soa s1)[nat idx := v]\<rparr>;
            s3 = s2\<lparr>next_soa := (next_soa s2)[nat idx := kNull]\<rparr>;
            s4 = s3\<lparr>prev_soa := (prev_soa s3)[nat idx := kNull]\<rparr>;
            s5 = s4\<lparr>generations_soa :=
                   (generations_soa s4)[nat idx := generations_soa s4 ! nat idx + 1]\<rparr>
        in (Inr \<lparr>index = idx, generation = generations_soa s5 ! nat idx\<rparr>, s5))"

definition release_node_soa :: "int \<Rightarrow> 'a soa \<Rightarrow> 'a soa" where
  "release_node_soa idx s =
     (let s1 = s\<lparr>next_soa := (next_soa s)[nat idx := kNull]\<rparr>;
          s2 = s1\<lparr>prev_soa := (prev_soa s1)[nat idx := kNull]\<rparr>
      in s2\<lparr>free_list_soa := free_list_soa s2 @ [idx]\<rparr>)"

definition ensure_valid_handle_soa :: "NodeHandle \<Rightarrow> 'a soa \<Rightarrow> error + unit" where
  "ensure_valid_handle_soa h s =
     (let idx = index h in
      if idx < 0 \<or> nat idx \<ge> length (values_soa s)
         \<or> generations_soa s ! nat idx \<noteq> generation h
      then Inl InvalidHandle else Inr ())"

definition ensure_valid_node_soa :: "int \<Rightarrow> 'a soa \<Rightarrow> error + unit" where
  "ensure_valid_node_soa idx s =
     (if idx < 0 \<or> nat idx \<ge> length (values_soa s) then Inl InvalidIndex else Inr ())"

definition emplace_front_soa :: "'a \<Rightarrow> 'a soa \<Rightarrow> (error + NodeHandle) \<times> 'a soa" where
  "emplace_front_soa v s =
     (case allocate_node_soa v s of
        (Inl e, s0) \<Rightarrow> (Inl e, s0)
      | (Inr handle, s0) \<Rightarrow>
          let idx = index handle;
              s1 = s0\<lparr>prev_soa := (prev_soa s0)[nat idx := kNull]\<rparr>;
              s2 = s1\<lparr>next_soa := (next_soa s1)[nat idx := head_soa s1]\<rparr>;
              s3 = (if head_soa s2 \<noteq> kNull
                    then s2\<lparr>prev_soa := (prev_soa s2)[nat (head_soa s2) := idx]\<rparr>
                    else s2\<lparr>tail_soa := idx\<rparr>);
              s4 = s3\<lparr>head_soa := idx\<rparr>;
              s5 = s4\<lparr>size_soa := size_soa s4 + 1\<rparr>
          in (Inr handle, s5))"

definition emplace_back_soa :: "'a \<Rightarrow> 'a soa \<Rightarrow> (error + NodeHandle) \<times> 'a soa" where
  "emplace_back_soa v s =
     (case allocate_node_soa v s of
        (Inl e, s0) \<Rightarrow> (Inl e, s0)
      | (Inr handle, s0) \<Rightarrow>
          let idx = index handle;
              s1 = s0\<lparr>next_soa := (next_soa s0)[nat idx := kNull]\<rparr>;
              s2 = s1\<lparr>prev_soa := (prev_soa s1)[nat idx := tail_soa s1]\<rparr>;
              s3 = (if tail_soa s2 \<noteq> kNull
                    then s2\<lparr>next_soa := (next_soa s2)[nat (tail_soa s2) := idx]\<rparr>
                    else s2\<lparr>head_soa := idx\<rparr>);
              s4 = s3\<lparr>tail_soa := idx\<rparr>;
              s5 = s4\<lparr>size_soa := size_soa s4 + 1\<rparr>
          in (Inr handle, s5))"

definition emplace_after_soa ::
  "NodeHandle \<Rightarrow> 'a \<Rightarrow> 'a soa \<Rightarrow> (error + NodeHandle) \<times> 'a soa" where
  "emplace_after_soa handle v s =
     (case ensure_valid_handle_soa handle s of
        Inl e \<Rightarrow> (Inl e, s)
      | Inr _ \<Rightarrow>
          let node_index = index handle in
          (case allocate_node_soa v s of
             (Inl e, s0) \<Rightarrow> (Inl e, s0)
           | (Inr new_handle, s0) \<Rightarrow>
               let idx = index new_handle;
                   old_next = next_soa s0 ! nat node_index;
                   s1 = s0\<lparr>prev_soa := (prev_soa s0)[nat idx := node_index]\<rparr>;
                   s2 = s1\<lparr>next_soa := (next_soa s1)[nat idx := old_next]\<rparr>;
                   s3 = s2\<lparr>next_soa := (next_soa s2)[nat node_index := idx]\<rparr>;
                   s4 = (if old_next \<noteq> kNull
                         then s3\<lparr>prev_soa := (prev_soa s3)[nat old_next := idx]\<rparr>
                         else s3\<lparr>tail_soa := idx\<rparr>);
                   s5 = s4\<lparr>size_soa := size_soa s4 + 1\<rparr>
               in (Inr new_handle, s5)))"

definition pop_front_soa :: "'a soa \<Rightarrow> (error + 'a) \<times> 'a soa" where
  "pop_front_soa s =
     (if head_soa s = kNull then (Inl Empty, s)
      else
        let idx = head_soa s;
            s1 = s\<lparr>head_soa := next_soa s ! nat idx\<rparr>;
            s2 = (if head_soa s1 \<noteq> kNull
                  then s1\<lparr>prev_soa := (prev_soa s1)[nat (head_soa s1) := kNull]\<rparr>
                  else s1\<lparr>tail_soa := kNull\<rparr>);
            s3 = s2\<lparr>size_soa := size_soa s2 - 1\<rparr>;
            v = values_soa s3 ! nat idx
        in (Inr v, release_node_soa idx s3))"

definition erase_after_soa :: "NodeHandle \<Rightarrow> 'a soa \<Rightarrow> (error + unit) \<times> 'a soa" where
  "erase_after_soa handle s =
     (case ensure_valid_handle_soa handle s of
        Inl e \<Rightarrow> (Inl e, s)
      | Inr _ \<Rightarrow>
          let node_index = index handle;
              target = next_soa s ! nat node_index
          in if target = kNull then (Inl NoSuccessor, s)
             else
               let new_next = next_soa s ! nat target;
                   s1 = s\<lparr>next_soa := (next_soa s)[nat node_index := new_next]\<rparr>;
                   s2 = (if new_next \<noteq> kNull
                         then s1\<lparr>prev_soa := (prev_soa s1)[nat new_next := node_index]\<rparr>
                         else s1\<lparr>tail_soa := node_index\<rparr>);
                   s3 = s2\<lparr>size_soa := size_soa s2 - 1\<rparr>
               in (Inr (), release_node_soa target s3))"

definition erase_soa :: "NodeHandle \<Rightarrow> 'a soa \<Rightarrow> (error + unit) \<times> 'a soa" where
  "erase_soa handle s =
     (case ensure_valid_handle_soa handle s of
        Inl e \<Rightarrow> (Inl e, s)
      | Inr _ \<Rightarrow>
          let node_index = index handle;
              prev = prev_soa s ! nat node_index;
              next = next_soa s ! nat node_index;
              s1 = (if prev \<noteq> kNull
                    then s\<lparr>next_soa := (next_soa s)[nat prev := next]\<rparr>
                    else s\<lparr>head_soa := next\<rparr>);
              s2 = (if next \<noteq> kNull
                    then s1\<lparr>prev_soa := (prev_soa s1)[nat next := prev]\<rparr>
                    else s1\<lparr>tail_soa := prev\<rparr>);
              s3 = s2\<lparr>size_soa := size_soa s2 - 1\<rparr>
          in (Inr (), release_node_soa node_index s3))"

text \<open>
  \<^verbatim>\<open>for_each\<close>: the loop \<^verbatim>\<open>while (idx != kNull) { fn(values_[idx], idx); idx = next_[idx]; }\<close>.
  The result is the sequence of argument pairs \<^verbatim>\<open>fn\<close> is called with, in call
  order; \<open>None\<close> when the loop does not terminate (the links form a cycle).
\<close>

partial_function (option) for_each_from_soa :: "'a soa \<Rightarrow> int \<Rightarrow> ('a \<times> int) list option" where
  "for_each_from_soa s idx =
     (if idx = kNull then Some []
      else Option.bind (for_each_from_soa s (next_soa s ! nat idx))
             (\<lambda>rest. Some ((values_soa s ! nat idx, idx) # rest)))"

declare for_each_from_soa.simps [code]

definition for_each_soa :: "'a soa \<Rightarrow> ('a \<times> int) list option" where
  "for_each_soa s = for_each_from_soa s (head_soa s)"

definition at_soa :: "'a soa \<Rightarrow> int \<Rightarrow> error + 'a" where
  "at_soa s node_index =
     (case ensure_valid_node_soa node_index s of
        Inl e \<Rightarrow> Inl e
      | Inr _ \<Rightarrow> Inr (values_soa s ! nat node_index))"

definition push_front_soa :: "'a \<Rightarrow> 'a soa \<Rightarrow> (error + NodeHandle) \<times> 'a soa" where
  "push_front_soa v s = emplace_front_soa v s"

definition push_back_soa :: "'a \<Rightarrow> 'a soa \<Rightarrow> (error + NodeHandle) \<times> 'a soa" where
  "push_back_soa v s = emplace_back_soa v s"

definition insert_after_soa ::
  "NodeHandle \<Rightarrow> 'a \<Rightarrow> 'a soa \<Rightarrow> (error + NodeHandle) \<times> 'a soa" where
  "insert_after_soa handle v s = emplace_after_soa handle v s"

subsection \<open>Row layout: \<^verbatim>\<open>array_linked_list_slow_aos.hpp\<close>\<close>

record 'a Node =
  node_value :: 'a
  node_next :: int
  node_prev :: int
  node_generation :: u32

record 'a aos =
  nodes_aos :: "'a Node list"
  free_list_aos :: "int list"
  head_aos :: int
  tail_aos :: int
  size_aos :: usize

definition ArrayLinkedList_aos :: "'a \<Rightarrow> usize \<Rightarrow> error + 'a aos" where
  "ArrayLinkedList_aos dflt capacity =
     (if capacity = 0 then Inl InvalidCapacity
      else Inr \<lparr> nodes_aos = replicate (unat capacity)
                   \<lparr>node_value = dflt, node_next = kNull, node_prev = kNull,
                    node_generation = 0\<rparr>,
                 free_list_aos = fill_free_list (unat capacity) [],
                 head_aos = kNull,
                 tail_aos = kNull,
                 size_aos = 0 \<rparr>)"

definition capacity_aos :: "'a aos \<Rightarrow> nat" where
  "capacity_aos s = length (nodes_aos s)"

definition empty_aos :: "'a aos \<Rightarrow> bool" where
  "empty_aos s = (size_aos s = 0)"

text \<open>The assignment \<^verbatim>\<open>nodes_[i].field = x\<close> for each of the four fields.\<close>

definition set_value :: "int \<Rightarrow> 'a \<Rightarrow> 'a aos \<Rightarrow> 'a aos" where
  "set_value i x s =
     s\<lparr>nodes_aos := (nodes_aos s)[nat i := (nodes_aos s ! nat i)\<lparr>node_value := x\<rparr>]\<rparr>"

definition set_next :: "int \<Rightarrow> int \<Rightarrow> 'a aos \<Rightarrow> 'a aos" where
  "set_next i x s =
     s\<lparr>nodes_aos := (nodes_aos s)[nat i := (nodes_aos s ! nat i)\<lparr>node_next := x\<rparr>]\<rparr>"

definition set_prev :: "int \<Rightarrow> int \<Rightarrow> 'a aos \<Rightarrow> 'a aos" where
  "set_prev i x s =
     s\<lparr>nodes_aos := (nodes_aos s)[nat i := (nodes_aos s ! nat i)\<lparr>node_prev := x\<rparr>]\<rparr>"

definition set_generation :: "int \<Rightarrow> u32 \<Rightarrow> 'a aos \<Rightarrow> 'a aos" where
  "set_generation i x s =
     s\<lparr>nodes_aos := (nodes_aos s)[nat i := (nodes_aos s ! nat i)\<lparr>node_generation := x\<rparr>]\<rparr>"

definition allocate_node_aos :: "'a \<Rightarrow> 'a aos \<Rightarrow> (error + NodeHandle) \<times> 'a aos" where
  "allocate_node_aos v s =
     (if free_list_aos s = [] then (Inl CapacityExhausted, s)
      else
        let idx = last (free_list_aos s);
            s1 = s\<lparr>free_list_aos := butlast (free_list_aos s)\<rparr>;
            s2 = set_value idx v s1;
            s3 = set_next idx kNull s2;
            s4 = set_prev idx kNull s3;
            s5 = set_generation idx (node_generation (nodes_aos s4 ! nat idx) + 1) s4
        in (Inr \<lparr>index = idx, generation = node_generation (nodes_aos s5 ! nat idx)\<rparr>, s5))"

definition release_node_aos :: "int \<Rightarrow> 'a aos \<Rightarrow> 'a aos" where
  "release_node_aos idx s =
     (let s1 = set_next idx kNull s;
          s2 = set_prev idx kNull s1
      in s2\<lparr>free_list_aos := free_list_aos s2 @ [idx]\<rparr>)"

definition ensure_valid_handle_aos :: "NodeHandle \<Rightarrow> 'a aos \<Rightarrow> error + unit" where
  "ensure_valid_handle_aos h s =
     (let idx = index h in
      if idx < 0 \<or> nat idx \<ge> length (nodes_aos s)
         \<or> node_generation (nodes_aos s ! nat idx) \<noteq> generation h
      then Inl InvalidHandle else Inr ())"

definition ensure_valid_node_aos :: "int \<Rightarrow> 'a aos \<Rightarrow> error + unit" where
  "ensure_valid_node_aos idx s =
     (if idx < 0 \<or> nat idx \<ge> length (nodes_aos s) then Inl InvalidIndex else Inr ())"

definition emplace_front_aos :: "'a \<Rightarrow> 'a aos \<Rightarrow> (error + NodeHandle) \<times> 'a aos" where
  "emplace_front_aos v s =
     (case allocate_node_aos v s of
        (Inl e, s0) \<Rightarrow> (Inl e, s0)
      | (Inr handle, s0) \<Rightarrow>
          let s1 = set_prev (index handle) kNull s0;
              s2 = set_next (index handle) (head_aos s1) s1;
              s3 = (if head_aos s2 \<noteq> kNull
                    then set_prev (head_aos s2) (index handle) s2
                    else s2\<lparr>tail_aos := index handle\<rparr>);
              s4 = s3\<lparr>head_aos := index handle\<rparr>;
              s5 = s4\<lparr>size_aos := size_aos s4 + 1\<rparr>
          in (Inr handle, s5))"

definition emplace_back_aos :: "'a \<Rightarrow> 'a aos \<Rightarrow> (error + NodeHandle) \<times> 'a aos" where
  "emplace_back_aos v s =
     (case allocate_node_aos v s of
        (Inl e, s0) \<Rightarrow> (Inl e, s0)
      | (Inr handle, s0) \<Rightarrow>
          let s1 = set_next (index handle) kNull s0;
              s2 = set_prev (index handle) (tail_aos s1) s1;
              s3 = (if tail_aos s2 \<noteq> kNull
                    then set_next (tail_aos s2) (index handle) s2
                    else s2\<lparr>head_aos := index handle\<rparr>);
              s4 = s3\<lparr>tail_aos := index handle\<rparr>;
              s5 = s4\<lparr>size_aos := size_aos s4 + 1\<rparr>
          in (Inr handle, s5))"

definition emplace_after_aos ::
  "NodeHandle \<Rightarrow> 'a \<Rightarrow> 'a aos \<Rightarrow> (error + NodeHandle) \<times> 'a aos" where
  "emplace_after_aos handle v s =
     (case ensure_valid_handle_aos handle s of
        Inl e \<Rightarrow> (Inl e, s)
      | Inr _ \<Rightarrow>
          let node_index = index handle in
          (case allocate_node_aos v s of
             (Inl e, s0) \<Rightarrow> (Inl e, s0)
           | (Inr new_handle, s0) \<Rightarrow>
               let old_next = node_next (nodes_aos s0 ! nat node_index);
                   s1 = set_prev (index new_handle) node_index s0;
                   s2 = set_next (index new_handle) old_next s1;
                   s3 = set_next node_index (index new_handle) s2;
                   s4 = (if old_next \<noteq> kNull
                         then set_prev old_next (index new_handle) s3
                         else s3\<lparr>tail_aos := index new_handle\<rparr>);
                   s5 = s4\<lparr>size_aos := size_aos s4 + 1\<rparr>
               in (Inr new_handle, s5)))"

definition push_front_aos :: "'a \<Rightarrow> 'a aos \<Rightarrow> (error + NodeHandle) \<times> 'a aos" where
  "push_front_aos v s = emplace_front_aos v s"

definition push_back_aos :: "'a \<Rightarrow> 'a aos \<Rightarrow> (error + NodeHandle) \<times> 'a aos" where
  "push_back_aos v s = emplace_back_aos v s"

definition insert_after_aos ::
  "NodeHandle \<Rightarrow> 'a \<Rightarrow> 'a aos \<Rightarrow> (error + NodeHandle) \<times> 'a aos" where
  "insert_after_aos handle v s = emplace_after_aos handle v s"

definition pop_front_aos :: "'a aos \<Rightarrow> (error + 'a) \<times> 'a aos" where
  "pop_front_aos s =
     (if head_aos s = kNull then (Inl Empty, s)
      else
        let idx = head_aos s;
            s1 = s\<lparr>head_aos := node_next (nodes_aos s ! nat idx)\<rparr>;
            s2 = (if head_aos s1 \<noteq> kNull
                  then set_prev (head_aos s1) kNull s1
                  else s1\<lparr>tail_aos := kNull\<rparr>);
            s3 = s2\<lparr>size_aos := size_aos s2 - 1\<rparr>;
            v = node_value (nodes_aos s3 ! nat idx)
        in (Inr v, release_node_aos idx s3))"

definition erase_after_aos :: "NodeHandle \<Rightarrow> 'a aos \<Rightarrow> (error + unit) \<times> 'a aos" where
  "erase_after_aos handle s =
     (case ensure_valid_handle_aos handle s of
        Inl e \<Rightarrow> (Inl e, s)
      | Inr _ \<Rightarrow>
          let node_index = index handle;
              target = node_next (nodes_aos s ! nat node_index)
          in if target = kNull then (Inl NoSuccessor, s)
             else
               let new_next = node_next (nodes_aos s ! nat target);
                   s1 = set_next node_index new_next s;
                   s2 = (if new_next \<noteq> kNull
                         then set_prev new_next node_index s1
                         else s1\<lparr>tail_aos := node_index\<rparr>);
                   s3 = s2\<lparr>size_aos := size_aos s2 - 1\<rparr>
               in (Inr (), release_node_aos target s3))"

definition erase_aos :: "NodeHandle \<Rightarrow> 'a aos \<Rightarrow> (error + unit) \<times> 'a aos" where
  "erase_aos handle s =
     (case ensure_valid_handle_aos handle s of
        Inl e \<Rightarrow> (Inl e, s)
      | Inr _ \<Rightarrow>
          let node_index = index handle;
              prev = node_prev (nodes_aos s ! nat node_index);
              next = node_next (nodes_aos s ! nat node_index);
              s1 = (if prev \<noteq> kNull
                    then set_next prev next s
                    else s\<lparr>head_aos := next\<rparr>);
              s2 = (if next \<noteq> kNull
                    then set_prev next prev s1
                    else s1\<lparr>tail_aos := prev\<rparr>);
              s3 = s2\<lparr>size_aos := size_aos s2 - 1\<rparr>
          in (Inr (), release_node_aos node_index s3))"

partial_function (option) for_each_from_aos :: "'a aos \<Rightarrow> int \<Rightarrow> ('a \<times> int) list option" where
  "for_each_from_aos s idx =
     (if idx = kNull then Some []
      else Option.bind (for_each_from_aos s (node_next (nodes_aos s ! nat idx)))
             (\<lambda>rest. Some ((node_value (nodes_aos s ! nat idx), idx) # rest)))"

declare for_each_from_aos.simps [code]

definition for_each_aos :: "'a aos \<Rightarrow> ('a \<times> int) list option" where
  "for_each_aos s = for_each_from_aos s (head_aos s)"

definition at_aos :: "'a aos \<Rightarrow> int \<Rightarrow> error + 'a" where
  "at_aos s node_index =
     (case ensure_valid_node_aos node_index s of
        Inl e \<Rightarrow> Inl e
      | Inr _ \<Rightarrow> Inr (node_value (nodes_aos s ! nat node_index)))"

subsection \<open>Operation sequences\<close>

text \<open>
  A client's calls and what it observes from each: the returned handle or value, the
  exception, the result of \<^verbatim>\<open>size()\<close>, the calls made by \<^verbatim>\<open>for_each\<close>
  (\<open>Visited None\<close> when the traversal does not return).
\<close>

datatype 'a op =
  PushFront 'a | PushBack 'a | InsertAfter NodeHandle 'a
  | Erase NodeHandle | EraseAfter NodeHandle | PopFront | ForEach | Size

datatype 'a outcome =
  Handle NodeHandle | Done | Popped 'a | Visited "('a \<times> int) list option"
  | SizeIs usize | Failed error

definition handle_outcome :: "(error + NodeHandle) \<times> 's \<Rightarrow> 'a outcome \<times> 's" where
  "handle_outcome r = (case r of (Inl e, s) \<Rightarrow> (Failed e, s) | (Inr h, s) \<Rightarrow> (Handle h, s))"

definition unit_outcome :: "(error + unit) \<times> 's \<Rightarrow> 'a outcome \<times> 's" where
  "unit_outcome r = (case r of (Inl e, s) \<Rightarrow> (Failed e, s) | (Inr _, s) \<Rightarrow> (Done, s))"

definition value_outcome :: "(error + 'a) \<times> 's \<Rightarrow> 'a outcome \<times> 's" where
  "value_outcome r = (case r of (Inl e, s) \<Rightarrow> (Failed e, s) | (Inr v, s) \<Rightarrow> (Popped v, s))"

fun exec_soa :: "'a op \<Rightarrow> 'a soa \<Rightarrow> 'a outcome \<times> 'a soa" where
  "exec_soa (PushFront v) s = handle_outcome (push_front_soa v s)"
| "exec_soa (PushBack v) s = handle_outcome (push_back_soa v s)"
| "exec_soa (InsertAfter h v) s = handle_outcome (insert_after_soa h v s)"
| "exec_soa (Erase h) s = unit_outcome (erase_soa h s)"
| "exec_soa (EraseAfter h) s = unit_outcome (erase_after_soa h s)"
| "exec_soa PopFront s = value_outcome (pop_front_soa s)"
| "exec_soa ForEach s = (Visited (for_each_soa s), s)"
| "exec_soa Size s = (SizeIs (size_soa s), s)"

fun exec_aos :: "'a op \<Rightarrow> 'a aos \<Rightarrow> 'a outcome \<times> 'a aos" where
  "exec_aos (PushFront v) s = handle_outcome (push_front_aos v s)"
| "exec_aos (PushBack v) s = handle_outcome (push_back_aos v s)"
| "exec_aos (InsertAfter h v) s = handle_outcome (insert_after_aos h v s)"
| "exec_aos (Erase h) s = unit_outcome (erase_aos h s)"
| "exec_aos (EraseAfter h) s = unit_outcome (erase_after_aos h s)"
| "exec_aos PopFront s = value_outcome (pop_front_aos s)"
| "exec_aos ForEach s = (Visited (for_each_aos s), s)"
| "exec_aos Size s = (SizeIs (size_aos s), s)"

text \<open>Running a sequence of calls: the outcomes in order, and the final state.\<close>

fun run_soa :: "'a op list \<Rightarrow> 'a soa \<Rightarrow> 'a outcome list \<times> 'a soa" where
  "run_soa [] s = ([], s)"
| "run_soa (c # cs) s =
     (let (r, s1) = exec_soa c s; (rs, s2) = run_soa cs s1 in (r # rs, s2))"

fun run_aos :: "'a op list \<Rightarrow> 'a aos \<Rightarrow> 'a outcome list \<times> 'a aos" where
  "run_aos [] s = ([], s)"
| "run_aos (c # cs) s =
     (let (r, s1) = exec_aos c s; (rs, s2) = run_aos cs s1 in (r # rs, s2))"

text \<open>A whole session: construct with a capacity, then run the calls.\<close>

definition session_soa :: "'a \<Rightarrow> usize \<Rightarrow> 'a op list \<Rightarrow> error + 'a outcome list" where
  "session_soa dflt c cs =
     (case ArrayLinkedList_soa dflt c of Inl e \<Rightarrow> Inl e | Inr s \<Rightarrow> Inr (fst (run_soa cs s)))"

definition session_aos :: "'a \<Rightarrow> usize \<Rightarrow> 'a op list \<Rightarrow> error + 'a outcome list" where
  "session_aos dflt c cs =
     (case ArrayLinkedList_aos dflt c of Inl e \<Rightarrow> Inl e | Inr s \<Rightarrow> Inr (fst (run_aos cs s)))"

subsection \<open>Index safety\<close>

text \<open>
  \<open>mem_safe_soa\<close>: the four vectors have the same length and every index stored in
  the object (head, tail, the links, the free-list) is within that length, or is
  \<open>kNull\<close> where the source tests for it before use. In such a state no operation
  reads or writes a vector out of range.
\<close>

definition in_range :: "nat \<Rightarrow> int \<Rightarrow> bool" where
  "in_range n i = (0 \<le> i \<and> nat i < n)"

definition link_ok :: "nat \<Rightarrow> int \<Rightarrow> bool" where
  "link_ok n i = (i = kNull \<or> in_range n i)"

definition mem_safe_soa :: "'a soa \<Rightarrow> bool" where
  "mem_safe_soa s =
     (let n = length (values_soa s) in
      length (next_soa s) = n \<and> length (prev_soa s) = n \<and> length (generations_soa s) = n
      \<and> link_ok n (head_soa s) \<and> link_ok n (tail_soa s)
      \<and> list_all (link_ok n) (next_soa s) \<and> list_all (link_ok n) (prev_soa s)
      \<and> list_all (in_range n) (free_list_soa s))"

text \<open>The column view of a row-layout object: field by field the same data.\<close>

definition to_soa :: "'a aos \<Rightarrow> 'a soa" where
  "to_soa a =
     \<lparr> values_soa = map node_value (nodes_aos a),
       next_soa = map node_next (nodes_aos a),
       prev_soa = map node_prev (nodes_aos a),
       generations_soa = map node_generation (nodes_aos a),
       free_list_soa = free_list_aos a,
       head_soa = head_aos a,
       tail_soa = tail_aos a,
       size_soa = size_aos a \<rparr>"

subsection \<open>The chain of live slots\<close>

text \<open>
  \<open>chain_path lnk x is y\<close>: starting at index \<open>x\<close> and following the link vector
  \<open>lnk\<close>, the slots visited are exactly \<open>is\<close>, and the link of the last one is \<open>y\<close>.
\<close>

primrec chain_path :: "int list \<Rightarrow> int \<Rightarrow> int list \<Rightarrow> int \<Rightarrow> bool" where
  "chain_path lnk x [] y = (x = y)"
| "chain_path lnk x (a # as) y = (x = a \<and> chain_path lnk (lnk ! nat a) as y)"

text \<open>
  \<open>wf_soa s is\<close>: the object \<open>s\<close> is a well-formed list whose live slots are, from
  head to tail, \<open>is\<close>. Every slot is either live or on the free-list, never both; the
  next links lead from head through \<open>is\<close> to \<open>kNull\<close> and the prev links lead back
  from tail; free slots have both links \<open>kNull\<close>; \<open>size_\<close> counts the live slots.
\<close>

definition wf_soa :: "'a soa \<Rightarrow> int list \<Rightarrow> bool" where
  "wf_soa s is =
     (let n = length (values_soa s) in
      n < 2 ^ 64
      \<and> length (next_soa s) = n \<and> length (prev_soa s) = n \<and> length (generations_soa s) = n
      \<and> distinct (is @ free_list_soa s)
      \<and> list_all (in_range n) (is @ free_list_soa s)
      \<and> length is + length (free_list_soa s) = n
      \<and> chain_path (next_soa s) (head_soa s) is kNull
      \<and> chain_path (prev_soa s) (tail_soa s) (rev is) kNull
      \<and> list_all (\<lambda>i. next_soa s ! nat i = kNull \<and> prev_soa s ! nat i = kNull)
           (free_list_soa s)
      \<and> size_soa s = word_of_nat (length is))"

text \<open>
  A call uses its handle well when the handle is rejected by the validity check or
  refers to a slot that \<^verbatim>\<open>for_each\<close> currently visits. Only \<^verbatim>\<open>erase\<close> and
  \<^verbatim>\<open>insert_after\<close> are restricted: the other operations keep a well-formed list
  well-formed whatever their arguments.
\<close>

definition in_list_soa :: "'a soa \<Rightarrow> int \<Rightarrow> bool" where
  "in_list_soa s i =
     (case for_each_soa s of None \<Rightarrow> False | Some vis \<Rightarrow> i \<in> set (map snd vis))"

fun well_used_soa :: "'a op \<Rightarrow> 'a soa \<Rightarrow> bool" where
  "well_used_soa (Erase h) s =
     (ensure_valid_handle_soa h s = Inr () \<longrightarrow> in_list_soa s (index h))"
| "well_used_soa (InsertAfter h v) s =
     (ensure_valid_handle_soa h s = Inr () \<longrightarrow> in_list_soa s (index h))"
| "well_used_soa c s = True"

fun well_used_run_soa :: "'a op list \<Rightarrow> 'a soa \<Rightarrow> bool" where
  "well_used_run_soa [] s = True"
| "well_used_run_soa (c # cs) s =
     (well_used_soa c s \<and> well_used_run_soa cs (snd (exec_soa c s)))"

subsection \<open>Counting successful insertions and removals\<close>

fun is_insert :: "'a op \<Rightarrow> bool" where
  "is_insert (PushFront v) = True"
| "is_insert (PushBack v) = True"
| "is_insert (InsertAfter h v) = True"
| "is_insert c = False"

fun is_remove :: "'a op \<Rightarrow> bool" where
  "is_remove (Erase h) = True"
| "is_remove (EraseAfter h) = True"
| "is_remove PopFront = True"
| "is_remove c = False"

fun is_failed :: "'a outcome \<Rightarrow> bool" where
  "is_failed (Failed e) = True"
| "is_failed r = False"

fun inserts_done :: "'a op list \<Rightarrow> 'a outcome list \<Rightarrow> nat" where
  "inserts_done (c # cs) (r # rs) =
     (if is_insert c \<and> \<not> is_failed r then 1 else 0) + inserts_done cs rs"
| "inserts_done cs rs = 0"

fun removes_done :: "'a op list \<Rightarrow> 'a outcome list \<Rightarrow> nat" where
  "removes_done (c # cs) (r # rs) =
     (if is_remove c \<and> \<not> is_failed r then 1 else 0) + removes_done cs rs"
| "removes_done cs rs = 0"

subsection \<open>Slot churn\<close>

text \<open>\<open>churn n v\<close>: \<open>n\<close> rounds of \<^verbatim>\<open>push_back(v)\<close> followed by \<^verbatim>\<open>pop_front()\<close>.\<close>

definition churn :: "nat \<Rightarrow> 'a \<Rightarrow> 'a op list" where
  "churn n v = concat (replicate n [PushBack v, PopFront])"

lemmas outcome_defs = handle_outcome_def unit_outcome_def value_outcome_def

section \<open>Every operation keeps the indices in range\<close>

lemma list_all_update: "list_all P xs \<Longrightarrow> P v \<Longrightarrow> list_all P (xs[i := v])"
  using set_update_subset_insert [of xs i v] by (auto simp: list_all_iff)

lemma list_all_butlast: "list_all P xs \<Longrightarrow> list_all P (butlast xs)"
  by (auto simp: list_all_iff dest: in_set_butlastD)

lemma list_all_last: "list_all P xs \<Longrightarrow> xs \<noteq> [] \<Longrightarrow> P (last xs)"
  by (simp add: list_all_iff)

lemma link_ok_null [simp]: "link_ok n kNull"
  by (simp add: link_ok_def)

lemma link_ok_in_range: "in_range n i \<Longrightarrow> link_ok n i"
  by (simp add: link_ok_def)

lemma link_ok_not_null: "link_ok n i \<Longrightarrow> i \<noteq> kNull \<Longrightarrow> in_range n i"
  by (simp add: link_ok_def)

lemma in_range_nth_link:
  "list_all (link_ok n) xs \<Longrightarrow> length xs = n \<Longrightarrow> in_range n i \<Longrightarrow> link_ok n (xs ! nat i)"
  by (simp add: list_all_length in_range_def)

lemma valid_handle_soa_iff:
  "ensure_valid_handle_soa h s = Inr () \<longleftrightarrow>
     in_range (length (values_soa s)) (index h) \<and> generations_soa s ! nat (index h) = generation h"
  by (auto simp: ensure_valid_handle_soa_def in_range_def Let_def)

lemma valid_handle_soa_cases:
  "ensure_valid_handle_soa h s = Inr () \<or> ensure_valid_handle_soa h s = Inl InvalidHandle"
  by (auto simp: ensure_valid_handle_soa_def Let_def)

lemma mem_safe_lengths:
  "mem_safe_soa s \<Longrightarrow> length (next_soa s) = length (values_soa s)"
  "mem_safe_soa s \<Longrightarrow> length (prev_soa s) = length (values_soa s)"
  "mem_safe_soa s \<Longrightarrow> length (generations_soa s) = length (values_soa s)"
  by (simp_all add: mem_safe_soa_def Let_def)

lemma mem_safe_next:
  "mem_safe_soa s \<Longrightarrow> in_range (length (values_soa s)) i \<Longrightarrow>
     link_ok (length (values_soa s)) (next_soa s ! nat i)"
  by (simp add: mem_safe_soa_def Let_def in_range_nth_link)

lemma mem_safe_prev:
  "mem_safe_soa s \<Longrightarrow> in_range (length (values_soa s)) i \<Longrightarrow>
     link_ok (length (values_soa s)) (prev_soa s ! nat i)"
  by (simp add: mem_safe_soa_def Let_def in_range_nth_link)

lemma mem_safe_head: "mem_safe_soa s \<Longrightarrow> link_ok (length (values_soa s)) (head_soa s)"
  and mem_safe_tail: "mem_safe_soa s \<Longrightarrow> link_ok (length (values_soa s)) (tail_soa s)"
  by (simp_all add: mem_safe_soa_def Let_def)

lemma mem_safe_allocate:
  assumes "mem_safe_soa s"
  shows "mem_safe_soa (snd (allocate_node_soa v s))"
    and "allocate_node_soa v s = (Inr h, s') \<Longrightarrow> in_range (length (values_soa s)) (index h)"
    and "length (values_soa (snd (allocate_node_soa v s))) = length (values_soa s)"
  using assms
  by (auto simp: allocate_node_soa_def mem_safe_soa_def Let_def
      split: if_splits intro!: list_all_update list_all_butlast dest: list_all_last)

lemma mem_safe_release:
  "mem_safe_soa s \<Longrightarrow> in_range (length (values_soa s)) i \<Longrightarrow> mem_safe_soa (release_node_soa i s)"
  by (auto simp: release_node_soa_def mem_safe_soa_def Let_def
      intro!: list_all_update)

lemma mem_safe_emplace_front:
  "mem_safe_soa s \<Longrightarrow> mem_safe_soa (snd (emplace_front_soa v s))"
  apply (cases "allocate_node_soa v s")
  subgoal for r s0
    using mem_safe_allocate(1)[of s v] mem_safe_allocate(2)[of s v _ s0] mem_safe_allocate(3)[of s v]
    by (cases r) (auto simp: emplace_front_soa_def mem_safe_soa_def Let_def link_ok_in_range
        intro!: list_all_update)
  done

lemma mem_safe_emplace_back:
  "mem_safe_soa s \<Longrightarrow> mem_safe_soa (snd (emplace_back_soa v s))"
  apply (cases "allocate_node_soa v s")
  subgoal for r s0
    using mem_safe_allocate(1)[of s v] mem_safe_allocate(2)[of s v _ s0] mem_safe_allocate(3)[of s v]
    by (cases r) (auto simp: emplace_back_soa_def mem_safe_soa_def Let_def link_ok_in_range
        intro!: list_all_update)
  done

lemma mem_safe_emplace_after:
  assumes "mem_safe_soa s"
  shows "mem_safe_soa (snd (emplace_after_soa h v s))"
proof (cases "ensure_valid_handle_soa h s")
  case (Inl e)
  then show ?thesis using assms by (simp add: emplace_after_soa_def)
next
  case (Inr u)
  then have hr: "in_range (length (values_soa s)) (index h)"
    by (simp add: valid_handle_soa_iff)
  obtain r s0 where al: "allocate_node_soa v s = (r, s0)"
    by (cases "allocate_node_soa v s")
  have s0: "mem_safe_soa s0" "length (values_soa s0) = length (values_soa s)"
    using mem_safe_allocate(1)[OF assms, of v] mem_safe_allocate(3)[OF assms, of v] al by simp_all
  show ?thesis
  proof (cases r)
    case (Inl e)
    then show ?thesis using Inr al s0 by (simp add: emplace_after_soa_def)
  next
    case (Inr nh)
    have nr: "in_range (length (values_soa s)) (index nh)"
      using mem_safe_allocate(2)[OF assms] al Inr by simp
    have on: "link_ok (length (values_soa s)) (next_soa s0 ! nat (index h))"
      using mem_safe_next[OF s0(1)] hr s0(2) by simp
    show ?thesis
      using \<open>ensure_valid_handle_soa h s = Inr u\<close> al Inr s0 nr hr on
      by (auto simp: emplace_after_soa_def mem_safe_soa_def Let_def link_ok_in_range
          intro!: list_all_update)
  qed
qed

lemma mem_safe_pop_front:
  assumes "mem_safe_soa s"
  shows "mem_safe_soa (snd (pop_front_soa s))"
proof (cases "head_soa s = kNull")
  case True
  then show ?thesis using assms by (simp add: pop_front_soa_def)
next
  case False
  then have hr: "in_range (length (values_soa s)) (head_soa s)"
    using mem_safe_head[OF assms] by (simp add: link_ok_not_null)
  have nx: "link_ok (length (values_soa s)) (next_soa s ! nat (head_soa s))"
    using mem_safe_next[OF assms hr] .
  show ?thesis
    using False assms hr nx
    by (auto simp: pop_front_soa_def release_node_soa_def mem_safe_soa_def Let_def
        intro!: list_all_update)
qed

lemma mem_safe_erase_after:
  assumes "mem_safe_soa s"
  shows "mem_safe_soa (snd (erase_after_soa h s))"
proof (cases "ensure_valid_handle_soa h s")
  case (Inl e)
  then show ?thesis using assms by (simp add: erase_after_soa_def)
next
  case (Inr u)
  then have hr: "in_range (length (values_soa s)) (index h)"
    by (simp add: valid_handle_soa_iff)
  have tg: "link_ok (length (values_soa s)) (next_soa s ! nat (index h))"
    using mem_safe_next[OF assms hr] .
  show ?thesis
  proof (cases "next_soa s ! nat (index h) = kNull")
    case True
    then show ?thesis using Inr assms by (simp add: erase_after_soa_def Let_def)
  next
    case False
    then have tr: "in_range (length (values_soa s)) (next_soa s ! nat (index h))"
      using tg by (simp add: link_ok_not_null)
    have nn: "link_ok (length (values_soa s)) (next_soa s ! nat (next_soa s ! nat (index h)))"
      using mem_safe_next[OF assms tr] .
    show ?thesis
      using False Inr assms hr tr nn
      by (auto simp: erase_after_soa_def release_node_soa_def mem_safe_soa_def Let_def
          link_ok_in_range intro!: list_all_update)
  qed
qed

lemma mem_safe_erase:
  assumes "mem_safe_soa s"
  shows "mem_safe_soa (snd (erase_soa h s))"
proof (cases "ensure_valid_handle_soa h s")
  case (Inl e)
  then show ?thesis using assms by (simp add: erase_soa_def)
next
  case (Inr u)
  then have hr: "in_range (length (values_soa s)) (index h)"
    by (simp add: valid_handle_soa_iff)
  have nx: "link_ok (length (values_soa s)) (next_soa s ! nat (index h))"
    using mem_safe_next[OF assms hr] .
  have pv: "link_ok (length (values_soa s)) (prev_soa s ! nat (index h))"
    using mem_safe_prev[OF assms hr] .
  show ?thesis
    using Inr assms hr nx pv
    by (auto simp: erase_soa_def release_node_soa_def mem_safe_soa_def Let_def
        intro!: list_all_update)
qed

lemma mem_safe_exec: "mem_safe_soa s \<Longrightarrow> mem_safe_soa (snd (exec_soa c s))"
proof (cases c)
  case (PushFront v)
  assume "mem_safe_soa s"
  from mem_safe_emplace_front[OF this, of v] PushFront show ?thesis
    by (cases "emplace_front_soa v s") (simp add: push_front_soa_def handle_outcome_def split: sum.splits)
next
  case (PushBack v)
  assume "mem_safe_soa s"
  from mem_safe_emplace_back[OF this, of v] PushBack show ?thesis
    by (cases "emplace_back_soa v s") (simp add: push_back_soa_def handle_outcome_def split: sum.splits)
next
  case (InsertAfter h v)
  assume "mem_safe_soa s"
  from mem_safe_emplace_after[OF this, of h v] InsertAfter show ?thesis
    by (cases "emplace_after_soa h v s") (simp add: insert_after_soa_def handle_outcome_def split: sum.splits)
next
  case (Erase h)
  assume "mem_safe_soa s"
  from mem_safe_erase[OF this, of h] Erase show ?thesis
    by (cases "erase_soa h s") (simp add: unit_outcome_def split: sum.splits)
next
  case (EraseAfter h)
  assume "mem_safe_soa s"
  from mem_safe_erase_after[OF this, of h] EraseAfter show ?thesis
    by (cases "erase_after_soa h s") (simp add: unit_outcome_def split: sum.splits)
next
  case PopFront
  assume "mem_safe_soa s"
  from mem_safe_pop_front[OF this] PopFront show ?thesis
    by (cases "pop_front_soa s") (simp add: value_outcome_def split: sum.splits)
qed simp_all

section \<open>The two layouts compute the same\<close>

lemma map_update_same: "(map f xs)[i := f (xs ! i)] = map f xs"
  by (cases "i < length xs") (simp_all add: list_eq_iff_nth_eq nth_list_update)

lemma to_soa_set_value:
  "to_soa (set_value i x a) = (to_soa a)\<lparr>values_soa := (values_soa (to_soa a))[nat i := x]\<rparr>"
  by (simp add: to_soa_def set_value_def map_update map_update_same)

lemma to_soa_set_next:
  "to_soa (set_next i x a) = (to_soa a)\<lparr>next_soa := (next_soa (to_soa a))[nat i := x]\<rparr>"
  by (simp add: to_soa_def set_next_def map_update map_update_same)

lemma to_soa_set_prev:
  "to_soa (set_prev i x a) = (to_soa a)\<lparr>prev_soa := (prev_soa (to_soa a))[nat i := x]\<rparr>"
  by (simp add: to_soa_def set_prev_def map_update map_update_same)

lemma to_soa_set_generation:
  "to_soa (set_generation i x a) =
     (to_soa a)\<lparr>generations_soa := (generations_soa (to_soa a))[nat i := x]\<rparr>"
  by (simp add: to_soa_def set_generation_def map_update map_update_same)

lemma to_soa_updates:
  "to_soa (a\<lparr>free_list_aos := f\<rparr>) = (to_soa a)\<lparr>free_list_soa := f\<rparr>"
  "to_soa (a\<lparr>head_aos := h\<rparr>) = (to_soa a)\<lparr>head_soa := h\<rparr>"
  "to_soa (a\<lparr>tail_aos := t\<rparr>) = (to_soa a)\<lparr>tail_soa := t\<rparr>"
  "to_soa (a\<lparr>size_aos := n\<rparr>) = (to_soa a)\<lparr>size_soa := n\<rparr>"
  by (simp_all add: to_soa_def)

lemma aos_fields:
  "free_list_aos a = free_list_soa (to_soa a)"
  "head_aos a = head_soa (to_soa a)"
  "tail_aos a = tail_soa (to_soa a)"
  "size_aos a = size_soa (to_soa a)"
  "length (nodes_aos a) = length (values_soa (to_soa a))"
  by (simp_all add: to_soa_def)

lemma aos_reads:
  assumes "in_range (length (values_soa (to_soa a))) i"
  shows "node_value (nodes_aos a ! nat i) = values_soa (to_soa a) ! nat i"
    and "node_next (nodes_aos a ! nat i) = next_soa (to_soa a) ! nat i"
    and "node_prev (nodes_aos a ! nat i) = prev_soa (to_soa a) ! nat i"
    and "node_generation (nodes_aos a ! nat i) = generations_soa (to_soa a) ! nat i"
  using assms by (simp_all add: to_soa_def in_range_def)

lemmas to_soa_simps = to_soa_set_value to_soa_set_next to_soa_set_prev to_soa_set_generation
  to_soa_updates aos_fields aos_reads

lemma ensure_valid_handle_sim:
  "ensure_valid_handle_aos h a = ensure_valid_handle_soa h (to_soa a)"
  by (auto simp: ensure_valid_handle_aos_def ensure_valid_handle_soa_def to_soa_def Let_def)

lemma allocate_node_sim:
  assumes "mem_safe_soa (to_soa a)"
  shows "map_prod id to_soa (allocate_node_aos v a) = allocate_node_soa v (to_soa a)"
proof (cases "free_list_aos a = []")
  case True
  then show ?thesis
    by (simp add: allocate_node_aos_def allocate_node_soa_def aos_fields(1)[symmetric])
next
  case False
  then have "in_range (length (values_soa (to_soa a))) (last (free_list_soa (to_soa a)))"
    using assms by (auto simp: mem_safe_soa_def Let_def aos_fields(1)[symmetric] dest: list_all_last)
  then show ?thesis
    using False
    by (simp add: allocate_node_aos_def allocate_node_soa_def Let_def to_soa_simps)
qed

lemma release_node_sim:
  "to_soa (release_node_aos i a) = release_node_soa i (to_soa a)"
  by (simp add: release_node_aos_def release_node_soa_def Let_def to_soa_set_next
      to_soa_set_prev to_soa_updates aos_fields)

lemma allocate_node_aos_facts:
  assumes "mem_safe_soa (to_soa a)" and "allocate_node_aos v a = (r, a0)"
  shows "allocate_node_soa v (to_soa a) = (r, to_soa a0)"
    and "mem_safe_soa (to_soa a0)"
    and "length (values_soa (to_soa a0)) = length (values_soa (to_soa a))"
    and "\<And>h. r = Inr h \<Longrightarrow> in_range (length (values_soa (to_soa a))) (index h)"
proof -
  show al: "allocate_node_soa v (to_soa a) = (r, to_soa a0)"
    using allocate_node_sim[OF assms(1), of v] assms(2) by simp
  show "mem_safe_soa (to_soa a0)"
    using mem_safe_allocate(1)[OF assms(1), of v] al by simp
  show "length (values_soa (to_soa a0)) = length (values_soa (to_soa a))"
    using mem_safe_allocate(3)[OF assms(1), of v] al by simp
  show "\<And>h. r = Inr h \<Longrightarrow> in_range (length (values_soa (to_soa a))) (index h)"
    using mem_safe_allocate(2)[OF assms(1)] al by simp
qed

lemma emplace_front_sim:
  assumes "mem_safe_soa (to_soa a)"
  shows "map_prod id to_soa (emplace_front_aos v a) = emplace_front_soa v (to_soa a)"
proof -
  obtain r a0 where al: "allocate_node_aos v a = (r, a0)"
    by (cases "allocate_node_aos v a")
  note f = allocate_node_aos_facts[OF assms al]
  show ?thesis
  proof (cases r)
    case (Inl e)
    then show ?thesis using al f(1) by (simp add: emplace_front_aos_def emplace_front_soa_def)
  next
    case (Inr h)
    then show ?thesis
      using al f(1)
      by (simp add: emplace_front_aos_def emplace_front_soa_def Let_def to_soa_set_next
          to_soa_set_prev to_soa_updates aos_fields)
  qed
qed

lemma emplace_back_sim:
  assumes "mem_safe_soa (to_soa a)"
  shows "map_prod id to_soa (emplace_back_aos v a) = emplace_back_soa v (to_soa a)"
proof -
  obtain r a0 where al: "allocate_node_aos v a = (r, a0)"
    by (cases "allocate_node_aos v a")
  note f = allocate_node_aos_facts[OF assms al]
  show ?thesis
  proof (cases r)
    case (Inl e)
    then show ?thesis using al f(1) by (simp add: emplace_back_aos_def emplace_back_soa_def)
  next
    case (Inr h)
    then show ?thesis
      using al f(1)
      by (simp add: emplace_back_aos_def emplace_back_soa_def Let_def to_soa_set_next
          to_soa_set_prev to_soa_updates aos_fields)
  qed
qed

lemma emplace_after_sim:
  assumes "mem_safe_soa (to_soa a)"
  shows "map_prod id to_soa (emplace_after_aos h v a) = emplace_after_soa h v (to_soa a)"
proof (cases "ensure_valid_handle_soa h (to_soa a)")
  case (Inl e)
  then show ?thesis
    by (simp add: emplace_after_aos_def emplace_after_soa_def ensure_valid_handle_sim)
next
  case (Inr u)
  then have hr: "in_range (length (values_soa (to_soa a))) (index h)"
    by (simp add: valid_handle_soa_iff)
  obtain r a0 where al: "allocate_node_aos v a = (r, a0)"
    by (cases "allocate_node_aos v a")
  note f = allocate_node_aos_facts[OF assms al]
  show ?thesis
  proof (cases r)
    case (Inl e)
    then show ?thesis
      using Inr al f(1)
      by (simp add: emplace_after_aos_def emplace_after_soa_def ensure_valid_handle_sim)
  next
    case (Inr nh)
    have "in_range (length (values_soa (to_soa a0))) (index h)"
      using hr f(3) by simp
    then show ?thesis
      using \<open>ensure_valid_handle_soa h (to_soa a) = Inr u\<close> Inr al f(1)
      by (simp add: emplace_after_aos_def emplace_after_soa_def ensure_valid_handle_sim
          Let_def to_soa_set_next to_soa_set_prev to_soa_updates aos_fields aos_reads)
  qed
qed

lemma pop_front_sim:
  assumes "mem_safe_soa (to_soa a)"
  shows "map_prod id to_soa (pop_front_aos a) = pop_front_soa (to_soa a)"
proof (cases "head_soa (to_soa a) = kNull")
  case True
  then show ?thesis by (simp add: pop_front_aos_def pop_front_soa_def aos_fields)
next
  case False
  then have "in_range (length (values_soa (to_soa a))) (head_soa (to_soa a))"
    using mem_safe_head[OF assms] by (simp add: link_ok_not_null)
  then show ?thesis
    using False
    by (simp add: pop_front_aos_def pop_front_soa_def Let_def release_node_sim
        to_soa_set_next to_soa_set_prev to_soa_updates aos_fields aos_reads)
qed

lemma erase_after_sim:
  assumes "mem_safe_soa (to_soa a)"
  shows "map_prod id to_soa (erase_after_aos h a) = erase_after_soa h (to_soa a)"
proof (cases "ensure_valid_handle_soa h (to_soa a)")
  case (Inl e)
  then show ?thesis
    by (simp add: erase_after_aos_def erase_after_soa_def ensure_valid_handle_sim)
next
  case (Inr u)
  then have hr: "in_range (length (values_soa (to_soa a))) (index h)"
    by (simp add: valid_handle_soa_iff)
  show ?thesis
  proof (cases "next_soa (to_soa a) ! nat (index h) = kNull")
    case True
    then show ?thesis
      using Inr hr
      by (simp add: erase_after_aos_def erase_after_soa_def ensure_valid_handle_sim
          Let_def aos_reads)
  next
    case False
    then have "in_range (length (values_soa (to_soa a))) (next_soa (to_soa a) ! nat (index h))"
      using mem_safe_next[OF assms hr] by (simp add: link_ok_not_null)
    then show ?thesis
      using False Inr hr
      by (simp add: erase_after_aos_def erase_after_soa_def ensure_valid_handle_sim
          Let_def release_node_sim to_soa_set_next to_soa_set_prev to_soa_updates
          aos_fields aos_reads)
  qed
qed

lemma erase_sim:
  assumes "mem_safe_soa (to_soa a)"
  shows "map_prod id to_soa (erase_aos h a) = erase_soa h (to_soa a)"
proof (cases "ensure_valid_handle_soa h (to_soa a)")
  case (Inl e)
  then show ?thesis
    by (simp add: erase_aos_def erase_soa_def ensure_valid_handle_sim)
next
  case (Inr u)
  then have hr: "in_range (length (values_soa (to_soa a))) (index h)"
    by (simp add: valid_handle_soa_iff)
  then show ?thesis
    using Inr
    by (simp add: erase_aos_def erase_soa_def ensure_valid_handle_sim
        Let_def release_node_sim to_soa_set_next to_soa_set_prev to_soa_updates
        aos_fields aos_reads)
qed

lemma for_each_from_sim_1:
  assumes "for_each_from_aos a idx = Some y"
  shows "mem_safe_soa (to_soa a) \<longrightarrow> link_ok (length (values_soa (to_soa a))) idx \<longrightarrow>
     for_each_from_soa (to_soa a) idx = Some y"
proof (rule for_each_from_aos.raw_induct [where P = "\<lambda>a idx y.
     mem_safe_soa (to_soa a) \<longrightarrow> link_ok (length (values_soa (to_soa a))) idx \<longrightarrow>
     for_each_from_soa (to_soa a) idx = Some y", OF _ assms])
  fix f and a :: "'a aos" and idx y
  assume IH: "\<And>a idx y. f a idx = Some y \<Longrightarrow>
     mem_safe_soa (to_soa a) \<longrightarrow> link_ok (length (values_soa (to_soa a))) idx \<longrightarrow>
     for_each_from_soa (to_soa a) idx = Some y"
    and body: "(if idx = kNull then Some []
      else Option.bind (f a (node_next (nodes_aos a ! nat idx)))
         (\<lambda>rest. Some ((node_value (nodes_aos a ! nat idx), idx) # rest))) = Some y"
  show "mem_safe_soa (to_soa a) \<longrightarrow> link_ok (length (values_soa (to_soa a))) idx \<longrightarrow>
     for_each_from_soa (to_soa a) idx = Some y"
  proof (intro impI)
    assume ms: "mem_safe_soa (to_soa a)"
      and lk: "link_ok (length (values_soa (to_soa a))) idx"
    show "for_each_from_soa (to_soa a) idx = Some y"
    proof (cases "idx = kNull")
      case True
      then show ?thesis using body by (simp add: for_each_from_soa.simps)
    next
      case False
      then have ir: "in_range (length (values_soa (to_soa a))) idx"
        using lk by (simp add: link_ok_not_null)
      from False body obtain rest where
        r: "f a (node_next (nodes_aos a ! nat idx)) = Some rest"
        and y: "y = (node_value (nodes_aos a ! nat idx), idx) # rest"
        by (auto simp: bind_eq_Some_conv)
      have "for_each_from_soa (to_soa a) (next_soa (to_soa a) ! nat idx) = Some rest"
        using IH[OF r] ms mem_safe_next[OF ms ir] by (simp add: aos_reads[OF ir])
      then show ?thesis
        using False y by (subst for_each_from_soa.simps) (simp add: aos_reads[OF ir])
    qed
  qed
qed

lemma for_each_from_sim_2:
  assumes "for_each_from_soa s idx = Some y"
  shows "\<forall>a. s = to_soa a \<longrightarrow> mem_safe_soa s \<longrightarrow> link_ok (length (values_soa s)) idx \<longrightarrow>
     for_each_from_aos a idx = Some y"
proof (rule for_each_from_soa.raw_induct [where P = "\<lambda>s idx y.
     \<forall>a. s = to_soa a \<longrightarrow> mem_safe_soa s \<longrightarrow> link_ok (length (values_soa s)) idx \<longrightarrow>
     for_each_from_aos a idx = Some y", OF _ assms])
  fix f and s :: "'a soa" and idx y
  assume IH: "\<And>s idx y. f s idx = Some y \<Longrightarrow>
     \<forall>a. s = to_soa a \<longrightarrow> mem_safe_soa s \<longrightarrow> link_ok (length (values_soa s)) idx \<longrightarrow>
     for_each_from_aos a idx = Some y"
    and body: "(if idx = kNull then Some []
      else Option.bind (f s (next_soa s ! nat idx))
         (\<lambda>rest. Some ((values_soa s ! nat idx, idx) # rest))) = Some y"
  show "\<forall>a. s = to_soa a \<longrightarrow> mem_safe_soa s \<longrightarrow> link_ok (length (values_soa s)) idx \<longrightarrow>
     for_each_from_aos a idx = Some y"
  proof (intro allI impI)
    fix a
    assume sa: "s = to_soa a" and ms: "mem_safe_soa s"
      and lk: "link_ok (length (values_soa s)) idx"
    show "for_each_from_aos a idx = Some y"
    proof (cases "idx = kNull")
      case True
      then show ?thesis using body by (simp add: for_each_from_aos.simps)
    next
      case False
      then have ir: "in_range (length (values_soa (to_soa a))) idx"
        using lk sa by (simp add: link_ok_not_null)
      from False body obtain rest where
        r: "f s (next_soa s ! nat idx) = Some rest"
        and y: "y = (values_soa s ! nat idx, idx) # rest"
        by (auto simp: bind_eq_Some_conv)
      have "for_each_from_aos a (next_soa s ! nat idx) = Some rest"
        using IH[OF r] ms mem_safe_next[OF ms] ir sa by simp
      then show ?thesis
        using False y sa by (subst for_each_from_aos.simps) (simp add: aos_reads[OF ir])
    qed
  qed
qed

lemma for_each_sim:
  assumes "mem_safe_soa (to_soa a)"
  shows "for_each_aos a = for_each_soa (to_soa a)"
proof -
  have lk: "link_ok (length (values_soa (to_soa a))) (head_soa (to_soa a))"
    using mem_safe_head[OF assms] .
  show ?thesis
  proof (cases "for_each_from_aos a (head_aos a)")
    case None
    show ?thesis
    proof (cases "for_each_from_soa (to_soa a) (head_soa (to_soa a))")
      case None
      then show ?thesis
        using \<open>for_each_from_aos a (head_aos a) = None\<close>
        by (simp add: for_each_aos_def for_each_soa_def)
    next
      case (Some y)
      then have "for_each_from_aos a (head_soa (to_soa a)) = Some y"
        using for_each_from_sim_2[OF Some] assms lk by simp
      then show ?thesis using None by (simp add: aos_fields)
    qed
  next
    case (Some y)
    then have "for_each_from_soa (to_soa a) (head_aos a) = Some y"
      using for_each_from_sim_1[OF Some] assms lk by (simp add: aos_fields)
    then show ?thesis
      using Some by (simp add: for_each_aos_def for_each_soa_def aos_fields)
  qed
qed

lemma exec_sim:
  assumes "mem_safe_soa (to_soa a)"
  shows "map_prod id to_soa (exec_aos c a) = exec_soa c (to_soa a)"
proof (cases c)
  case (PushFront v)
  then show ?thesis
    using emplace_front_sim[OF assms, of v, symmetric]
    by (cases "emplace_front_aos v a")
      (auto simp: push_front_aos_def push_front_soa_def handle_outcome_def split: sum.splits)
next
  case (PushBack v)
  then show ?thesis
    using emplace_back_sim[OF assms, of v, symmetric]
    by (cases "emplace_back_aos v a")
      (auto simp: push_back_aos_def push_back_soa_def handle_outcome_def split: sum.splits)
next
  case (InsertAfter h v)
  then show ?thesis
    using emplace_after_sim[OF assms, of h v, symmetric]
    by (cases "emplace_after_aos h v a")
      (auto simp: insert_after_aos_def insert_after_soa_def handle_outcome_def split: sum.splits)
next
  case (Erase h)
  then show ?thesis
    using erase_sim[OF assms, of h, symmetric]
    by (cases "erase_aos h a") (auto simp: unit_outcome_def split: sum.splits)
next
  case (EraseAfter h)
  then show ?thesis
    using erase_after_sim[OF assms, of h, symmetric]
    by (cases "erase_after_aos h a") (auto simp: unit_outcome_def split: sum.splits)
next
  case PopFront
  then show ?thesis
    using pop_front_sim[OF assms, symmetric]
    by (cases "pop_front_aos a") (auto simp: value_outcome_def split: sum.splits)
next
  case ForEach
  then show ?thesis by (simp add: for_each_sim[OF assms])
next
  case Size
  then show ?thesis by (simp add: aos_fields)
qed

lemma run_sim:
  "mem_safe_soa (to_soa a) \<Longrightarrow> map_prod id to_soa (run_aos cs a) = run_soa cs (to_soa a)"
proof (induction cs arbitrary: a)
  case Nil
  then show ?case by simp
next
  case (Cons c cs)
  obtain r a1 where e: "exec_aos c a = (r, a1)" by (cases "exec_aos c a")
  then have e': "exec_soa c (to_soa a) = (r, to_soa a1)"
    using exec_sim[OF Cons.prems, of c] by simp
  have "mem_safe_soa (to_soa a1)"
    using mem_safe_exec[OF Cons.prems, of c] e' by simp
  from Cons.IH[OF this] show ?case
    using e e' by (cases "run_aos cs a1") (auto split: prod.splits)
qed

section \<open>The freshly constructed list\<close>

lemma static_cast_int_small: "i < 2 ^ 31 \<Longrightarrow> static_cast_int i = int i"
proof -
  assume "i < 2 ^ 31"
  then have "int i < 2 ^ 31" by (metis of_nat_less_iff of_nat_numeral of_nat_power)
  then show ?thesis
    by (simp add: static_cast_int_def signed_of_nat signed_take_bit_int_eq_self)
qed

lemma fill_free_list_eq:
  "n \<le> 2 ^ 31 \<Longrightarrow> fill_free_list n fl = fl @ map int (rev [0..<n])"
proof (induction n arbitrary: fl)
  case 0
  then show ?case by simp
next
  case (Suc n)
  then show ?case by (simp add: static_cast_int_small)
qed

section \<open>Equivalence of the two layouts on whole sessions\<close>

lemma ctor_sim:
  "ArrayLinkedList_soa d c = map_sum id to_soa (ArrayLinkedList_aos d c)"
  by (simp add: ArrayLinkedList_soa_def ArrayLinkedList_aos_def to_soa_def)

lemma mem_safe_ctor:
  assumes "unat c \<le> 2 ^ 31" and "ArrayLinkedList_soa d c = Inr s"
  shows "mem_safe_soa s"
proof -
  have "list_all (in_range (unat c)) (map int (rev [0..<unat c]))"
    by (simp add: list_all_iff in_range_def)
  then show ?thesis
    using assms
    by (auto simp: ArrayLinkedList_soa_def mem_safe_soa_def fill_free_list_eq list_all_iff
        split: if_splits)
qed

text \<open>
  Claim C2. For every capacity (within the range of the \<^verbatim>\<open>int\<close> index type, that
  is at most \<open>2 ^ 31\<close>) and every finite sequence of calls of \<^verbatim>\<open>push_front\<close>,
  \<^verbatim>\<open>push_back\<close>, \<^verbatim>\<open>insert_after\<close>, \<^verbatim>\<open>erase\<close>, \<^verbatim>\<open>erase_after\<close>,
  \<^verbatim>\<open>pop_front\<close>, \<^verbatim>\<open>for_each\<close> and \<^verbatim>\<open>size\<close>, the row layout and the column
  layout constructed with that capacity give the same outcome at every step: the same
  handles, the same exceptions, the same sizes, the same \<^verbatim>\<open>for_each\<close> calls.
\<close>

theorem layouts_agree:
  assumes "unat c \<le> 2 ^ 31"
  shows "session_aos d c cs = session_soa d c cs"
proof (cases "ArrayLinkedList_aos d c")
  case (Inl e)
  then show ?thesis
    using ctor_sim[of d c] by (simp add: session_aos_def session_soa_def)
next
  case (Inr a)
  then have s: "ArrayLinkedList_soa d c = Inr (to_soa a)"
    using ctor_sim[of d c] by simp
  have "mem_safe_soa (to_soa a)"
    using mem_safe_ctor[OF assms s] .
  from run_sim[OF this, of cs] have "fst (run_aos cs a) = fst (run_soa cs (to_soa a))"
    by (metis fst_map_prod id_apply)
  then show ?thesis
    using Inr s by (simp add: session_aos_def session_soa_def)
qed

theorem layouts_agree_witness:
  "unat (3 :: usize) \<le> 2 ^ 31 \<and>
   session_aos (0 :: int) 3
     [PushBack 1, PushFront 2, InsertAfter \<lparr>index = 0, generation = 1\<rparr> 3, ForEach, Size,
      EraseAfter \<lparr>index = 1, generation = 1\<rparr>, Erase \<lparr>index = 5, generation = 1\<rparr>,
      PopFront, PushBack 4, ForEach] =
   session_soa 0 3
     [PushBack 1, PushFront 2, InsertAfter \<lparr>index = 0, generation = 1\<rparr> 3, ForEach, Size,
      EraseAfter \<lparr>index = 1, generation = 1\<rparr>, Erase \<lparr>index = 5, generation = 1\<rparr>,
      PopFront, PushBack 4, ForEach]"
  using layouts_agree [of 3 "0 :: int"] by simp

section \<open>Failed calls\<close>

lemmas soa_op_defs = push_front_soa_def push_back_soa_def insert_after_soa_def
  emplace_front_soa_def emplace_back_soa_def emplace_after_soa_def pop_front_soa_def
  erase_soa_def erase_after_soa_def allocate_node_soa_def

lemmas aos_op_defs = push_front_aos_def push_back_aos_def insert_after_aos_def
  emplace_front_aos_def emplace_back_aos_def emplace_after_aos_def pop_front_aos_def
  erase_aos_def erase_after_aos_def allocate_node_aos_def

lemma exec_soa_failed: "exec_soa c s = (Failed e, s') \<Longrightarrow> s' = s"
  by (cases c) (auto simp: outcome_defs soa_op_defs Let_def split: sum.splits prod.splits if_splits)

lemma exec_aos_failed: "exec_aos c a = (Failed e, a') \<Longrightarrow> a' = a"
  by (cases c) (auto simp: outcome_defs aos_op_defs Let_def split: sum.splits prod.splits if_splits)

text \<open>
  Claim C5. A call that fails leaves the object exactly as it was: whenever a call
  ends with an exception (\<open>CapacityExhausted\<close> from an insertion, \<open>InvalidHandle\<close> from
  \<^verbatim>\<open>erase\<close>, \<^verbatim>\<open>erase_after\<close> or \<^verbatim>\<open>insert_after\<close>, \<open>NoSuccessor\<close> from
  \<^verbatim>\<open>erase_after\<close>, \<open>Empty\<close> from \<^verbatim>\<open>pop_front\<close>), the state at the throw is the
  state before the call, in both layouts; and construction with capacity zero throws
  \<open>InvalidCapacity\<close> without producing an object.
\<close>

theorem failed_call_is_noop:
  "(exec_soa c s = (Failed e, s') \<longrightarrow> s' = s)
   \<and> (exec_aos c a = (Failed e, a') \<longrightarrow> a' = a)
   \<and> ArrayLinkedList_soa d 0 = Inl InvalidCapacity
   \<and> ArrayLinkedList_aos d 0 = Inl InvalidCapacity"
  using exec_soa_failed[of c s e s'] exec_aos_failed[of c a e a']
  by (simp add: ArrayLinkedList_soa_def ArrayLinkedList_aos_def)

theorem failed_call_is_noop_witness:
  "exec_soa PopFront (projr (ArrayLinkedList_soa (0 :: int) 2))
     = (Failed Empty, projr (ArrayLinkedList_soa 0 2))
   \<and> exec_aos PopFront (projr (ArrayLinkedList_aos (0 :: int) 2))
     = (Failed Empty, projr (ArrayLinkedList_aos 0 2))"
proof -
  have 1: "fst (exec_soa PopFront (projr (ArrayLinkedList_soa (0 :: int) 2))) = Failed Empty"
    by (simp add: ArrayLinkedList_soa_def pop_front_soa_def value_outcome_def)
  have 2: "fst (exec_aos PopFront (projr (ArrayLinkedList_aos (0 :: int) 2))) = Failed Empty"
    by (simp add: ArrayLinkedList_aos_def pop_front_aos_def value_outcome_def)
  show ?thesis
    using 1 2
      failed_call_is_noop [of PopFront "projr (ArrayLinkedList_soa (0 :: int) 2)" Empty
        "snd (exec_soa PopFront (projr (ArrayLinkedList_soa (0 :: int) 2)))"
        "projr (ArrayLinkedList_aos (0 :: int) 2)"
        "snd (exec_aos PopFront (projr (ArrayLinkedList_aos (0 :: int) 2)))"]
    by (metis prod.collapse)
qed

section \<open>The accessor \<^verbatim>\<open>at\<close>\<close>

lemma at_soa_eq:
  "at_soa s i = (if 0 \<le> i \<and> nat i < capacity_soa s then Inr (values_soa s ! nat i) else Inl InvalidIndex)"
  by (auto simp: at_soa_def ensure_valid_node_soa_def capacity_soa_def)

lemma at_aos_eq:
  "at_aos a i = (if 0 \<le> i \<and> nat i < capacity_aos a then Inr (node_value (nodes_aos a ! nat i)) else Inl InvalidIndex)"
  by (auto simp: at_aos_def ensure_valid_node_aos_def capacity_aos_def)

lemma at_aos_indep:
  "at_aos ((set_generation j g a)\<lparr>free_list_aos := fl\<rparr>) i = at_aos a i"
  by (cases "nat j = nat i")
    (auto simp: at_aos_def ensure_valid_node_aos_def set_generation_def)

lemma at_soa_indep:
  "at_soa (s\<lparr>generations_soa := g, free_list_soa := fl\<rparr>) i = at_soa s i"
  by (simp add: at_soa_def ensure_valid_node_soa_def)

text \<open>
  Claim C10. The accessor \<^verbatim>\<open>at(index)\<close> succeeds for every index in
  \<open>[0, capacity)\<close>, returning the value stored in that slot, and fails (throws
  \<open>InvalidIndex\<close>) exactly for the indices outside that range, in both layouts. It
  checks the range only: its result does not depend on the generations or on the
  free-list, so a slot that is on the free-list still yields its stale or default
  value.
\<close>

theorem at_checks_range_only:
  "(0 \<le> i \<and> nat i < capacity_soa s \<longrightarrow> at_soa s i = Inr (values_soa s ! nat i))
   \<and> (\<not> (0 \<le> i \<and> nat i < capacity_soa s) \<longrightarrow> at_soa s i = Inl InvalidIndex)
   \<and> at_soa (s\<lparr>generations_soa := g, free_list_soa := fl\<rparr>) i = at_soa s i
   \<and> (0 \<le> i \<and> nat i < capacity_aos a \<longrightarrow> at_aos a i = Inr (node_value (nodes_aos a ! nat i)))
   \<and> (\<not> (0 \<le> i \<and> nat i < capacity_aos a) \<longrightarrow> at_aos a i = Inl InvalidIndex)
   \<and> at_aos ((set_generation j g' a)\<lparr>free_list_aos := fl\<rparr>) i = at_aos a i"
  by (simp add: at_soa_indep at_aos_indep) (simp add: at_soa_eq at_aos_eq)

theorem at_checks_range_only_witness:
  "snd (run_soa [PushBack 7, PopFront] (projr (ArrayLinkedList_soa (0 :: int) 2)))
     = \<lparr>values_soa = [7, 0], next_soa = [- 1, - 1], prev_soa = [- 1, - 1],
        generations_soa = [1, 0], free_list_soa = [1, 0], head_soa = - 1, tail_soa = - 1,
        size_soa = 0\<rparr>
   \<and> at_soa \<lparr>values_soa = [7 :: int, 0], next_soa = [- 1, - 1], prev_soa = [- 1, - 1],
        generations_soa = [1, 0], free_list_soa = [1, 0], head_soa = - 1, tail_soa = - 1,
        size_soa = 0\<rparr> 0 = Inr 7
   \<and> at_soa \<lparr>values_soa = [7 :: int, 0], next_soa = [- 1, - 1], prev_soa = [- 1, - 1],
        generations_soa = [1, 0], free_list_soa = [1, 0], head_soa = - 1, tail_soa = - 1,
        size_soa = 0\<rparr> 2 = Inl InvalidIndex
   \<and> at_aos \<lparr>nodes_aos = [\<lparr>node_value = 7 :: int, node_next = - 1, node_prev = - 1,
        node_generation = 1\<rparr>], free_list_aos = [0], head_aos = - 1, tail_aos = - 1,
        size_aos = 0\<rparr> 0 = Inr 7
   \<and> at_aos \<lparr>nodes_aos = [\<lparr>node_value = 7 :: int, node_next = - 1, node_prev = - 1,
        node_generation = 1\<rparr>], free_list_aos = [0], head_aos = - 1, tail_aos = - 1,
        size_aos = 0\<rparr> (- 1) = Inl InvalidIndex"
proof -
  have run: "snd (run_soa [PushBack 7, PopFront] (projr (ArrayLinkedList_soa (0 :: int) 2)))
     = \<lparr>values_soa = [7, 0], next_soa = [- 1, - 1], prev_soa = [- 1, - 1],
        generations_soa = [1, 0], free_list_soa = [1, 0], head_soa = - 1, tail_soa = - 1,
        size_soa = 0\<rparr>"
    by code_simp
  have a: "at_soa \<lparr>values_soa = [7 :: int, 0], next_soa = [- 1, - 1], prev_soa = [- 1, - 1],
        generations_soa = [1, 0], free_list_soa = [1, 0], head_soa = - 1, tail_soa = - 1,
        size_soa = 0\<rparr> 0 = Inr 7"
    using at_checks_range_only [of 0 "\<lparr>values_soa = [7 :: int, 0], next_soa = [- 1, - 1],
        prev_soa = [- 1, - 1], generations_soa = [1, 0], free_list_soa = [1, 0],
        head_soa = - 1, tail_soa = - 1, size_soa = 0\<rparr>" "[]" "[]"
        "\<lparr>nodes_aos = [\<lparr>node_value = 7 :: int, node_next = - 1, node_prev = - 1,
        node_generation = 1\<rparr>], free_list_aos = [0], head_aos = - 1, tail_aos = - 1,
        size_aos = 0\<rparr>" 0 0]
    by (simp add: capacity_soa_def)
  have b: "at_soa \<lparr>values_soa = [7 :: int, 0], next_soa = [- 1, - 1], prev_soa = [- 1, - 1],
        generations_soa = [1, 0], free_list_soa = [1, 0], head_soa = - 1, tail_soa = - 1,
        size_soa = 0\<rparr> 2 = Inl InvalidIndex"
    using at_checks_range_only [of 2 "\<lparr>values_soa = [7 :: int, 0], next_soa = [- 1, - 1],
        prev_soa = [- 1, - 1], generations_soa = [1, 0], free_list_soa = [1, 0],
        head_soa = - 1, tail_soa = - 1, size_soa = 0\<rparr>" "[]" "[]"
        "\<lparr>nodes_aos = [\<lparr>node_value = 7 :: int, node_next = - 1, node_prev = - 1,
        node_generation = 1\<rparr>], free_list_aos = [0], head_aos = - 1, tail_aos = - 1,
        size_aos = 0\<rparr>" 0 0]
    by (simp add: capacity_soa_def)
  have c: "at_aos \<lparr>nodes_aos = [\<lparr>node_value = 7 :: int, node_next = - 1, node_prev = - 1,
        node_generation = 1\<rparr>], free_list_aos = [0], head_aos = - 1, tail_aos = - 1,
        size_aos = 0\<rparr> 0 = Inr 7"
    using at_checks_range_only [of 0 "\<lparr>values_soa = [7 :: int, 0], next_soa = [- 1, - 1],
        prev_soa = [- 1, - 1], generations_soa = [1, 0], free_list_soa = [1, 0],
        head_soa = - 1, tail_soa = - 1, size_soa = 0\<rparr>" "[]" "[]"
        "\<lparr>nodes_aos = [\<lparr>node_value = 7 :: int, node_next = - 1, node_prev = - 1,
        node_generation = 1\<rparr>], free_list_aos = [0], head_aos = - 1, tail_aos = - 1,
        size_aos = 0\<rparr>" 0 0]
    by (simp add: capacity_aos_def)
  have d: "at_aos \<lparr>nodes_aos = [\<lparr>node_value = 7 :: int, node_next = - 1, node_prev = - 1,
        node_generation = 1\<rparr>], free_list_aos = [0], head_aos = - 1, tail_aos = - 1,
        size_aos = 0\<rparr> (- 1) = Inl InvalidIndex"
    using at_checks_range_only [of "- 1" "\<lparr>values_soa = [7 :: int, 0], next_soa = [- 1, - 1],
        prev_soa = [- 1, - 1], generations_soa = [1, 0], free_list_soa = [1, 0],
        head_soa = - 1, tail_soa = - 1, size_soa = 0\<rparr>" "[]" "[]"
        "\<lparr>nodes_aos = [\<lparr>node_value = 7 :: int, node_next = - 1, node_prev = - 1,
        node_generation = 1\<rparr>], free_list_aos = [0], head_aos = - 1, tail_aos = - 1,
        size_aos = 0\<rparr>" 0 0]
    by (simp add: capacity_aos_def)
  show ?thesis
    by (intro conjI run a b c d)
qed

section \<open>Handles after insertion and after removal\<close>

lemma exec_soa_lengths:
  "length (values_soa (snd (exec_soa c s))) = length (values_soa s)"
  by (cases c)
    (auto simp: outcome_defs soa_op_defs release_node_soa_def Let_def
      split: sum.splits prod.splits if_splits)

lemma handle_valid_after_insert:
  assumes "mem_safe_soa s" and "exec_soa c s = (Handle h, s')"
  shows "ensure_valid_handle_soa h s' = Inr ()"
proof -
  have alloc: "\<And>v r s0. allocate_node_soa v s = (Inr r, s0) \<Longrightarrow>
      in_range (length (values_soa s0)) (index r)
      \<and> generations_soa s0 ! nat (index r) = generation r"
    using assms(1)
    by (auto simp: allocate_node_soa_def mem_safe_soa_def Let_def in_range_def
        split: if_splits dest: list_all_last)
  show ?thesis
    using assms(2) alloc
    by (cases c)
      (auto simp: outcome_defs push_front_soa_def push_back_soa_def insert_after_soa_def
        emplace_front_soa_def emplace_back_soa_def emplace_after_soa_def
        valid_handle_soa_iff Let_def
        split: sum.splits prod.splits if_splits)
qed

lemma erased_handle_still_valid:
  assumes "erase_soa h s = (Inr (), s')"
  shows "ensure_valid_handle_soa h s' = Inr ()"
  using assms valid_handle_soa_cases[of h s]
  by (auto simp: erase_soa_def release_node_soa_def Let_def valid_handle_soa_iff
      split: sum.splits)

text \<open>
  Claim C1, at its failing input. On a list of capacity 1, \<^verbatim>\<open>push_back(7)\<close> returns
  the handle \<open>(0, 1)\<close>; \<^verbatim>\<open>erase\<close> of that handle succeeds, and a second
  \<^verbatim>\<open>erase\<close> of the same handle succeeds again instead of failing with
  \<open>InvalidHandle\<close>, in both layouts: the release does not change the slot's
  generation, so the handle still validates. The size counter wraps below zero. The
  general facts are the two lemmas above: a returned handle validates right after the
  insertion (\<open>handle_valid_after_insert\<close>), and it still validates after its own
  \<^verbatim>\<open>erase\<close> (\<open>erased_handle_still_valid\<close>).
\<close>

theorem double_erase_succeeds:
  "session_soa (0 :: int) 1
     [PushBack 7, Erase \<lparr>index = 0, generation = 1\<rparr>, Erase \<lparr>index = 0, generation = 1\<rparr>, Size]
   = Inr [Handle \<lparr>index = 0, generation = 1\<rparr>, Done, Done, SizeIs 18446744073709551615]
   \<and> session_aos (0 :: int) 1
     [PushBack 7, Erase \<lparr>index = 0, generation = 1\<rparr>, Erase \<lparr>index = 0, generation = 1\<rparr>, Size]
   = Inr [Handle \<lparr>index = 0, generation = 1\<rparr>, Done, Done, SizeIs 18446744073709551615]"
  by code_simp

section \<open>Generations\<close>

lemma run_soa_append:
  "run_soa (cs @ ds) s =
     (fst (run_soa cs s) @ fst (run_soa ds (snd (run_soa cs s))),
      snd (run_soa ds (snd (run_soa cs s))))"
  by (induction cs arbitrary: s) (auto split: prod.splits)

lemma churn_Suc: "churn (Suc n) v = [PushBack v, PopFront] @ churn n v"
  by (simp add: churn_def)

lemma churn_round:
  "snd (run_soa [PushBack v, PopFront]
     \<lparr>values_soa = [x], next_soa = [kNull], prev_soa = [kNull], generations_soa = [g],
      free_list_soa = [0], head_soa = kNull, tail_soa = kNull, size_soa = 0\<rparr>)
   = \<lparr>values_soa = [v], next_soa = [kNull], prev_soa = [kNull], generations_soa = [g + 1],
      free_list_soa = [0], head_soa = kNull, tail_soa = kNull, size_soa = 0\<rparr>"
  by (simp add: outcome_defs soa_op_defs release_node_soa_def Let_def kNull_def)

lemma churn_state:
  "snd (run_soa (churn n v)
     \<lparr>values_soa = [x], next_soa = [kNull], prev_soa = [kNull], generations_soa = [g],
      free_list_soa = [0], head_soa = kNull, tail_soa = kNull, size_soa = 0\<rparr>)
   = \<lparr>values_soa = [if n = 0 then x else v], next_soa = [kNull], prev_soa = [kNull],
      generations_soa = [g + of_nat n],
      free_list_soa = [0], head_soa = kNull, tail_soa = kNull, size_soa = 0\<rparr>"
proof (induction n arbitrary: x g)
  case 0
  then show ?case by (simp add: churn_def)
next
  case (Suc n)
  show ?case
    unfolding churn_Suc run_soa_append snd_conv churn_round Suc.IH
    by (simp add: algebra_simps)
qed

lemma fresh_single_slot:
  "projr (ArrayLinkedList_soa d 1) =
     \<lparr>values_soa = [d], next_soa = [kNull], prev_soa = [kNull], generations_soa = [0],
      free_list_soa = [0], head_soa = kNull, tail_soa = kNull, size_soa = 0\<rparr>"
  by (simp add: ArrayLinkedList_soa_def static_cast_int_def)

text \<open>
  Claim C4, as stated, fails at the wrap-around of the 32-bit counter: after
  \<open>2 ^ 32 - 1\<close> rounds of \<^verbatim>\<open>push_back\<close> and \<^verbatim>\<open>pop_front\<close> on a list of
  capacity 1 the generation of slot 0 is \<open>2 ^ 32 - 1\<close>, and the next
  \<^verbatim>\<open>push_back\<close> makes it 0: the generation has decreased.
\<close>

theorem generation_wraps:
  "\<not> (generations_soa (snd (run_soa (churn 4294967295 0)
          (projr (ArrayLinkedList_soa (0 :: int) 1)))) ! 0
      \<le> generations_soa (snd (run_soa (churn 4294967295 0 @ [PushBack 0])
          (projr (ArrayLinkedList_soa (0 :: int) 1)))) ! 0)"
  unfolding run_soa_append snd_conv fresh_single_slot churn_state
  by (simp add: outcome_defs soa_op_defs Let_def kNull_def)

lemma u32_le_inc:
  assumes "(x :: u32) \<noteq> 4294967295"
  shows "x \<le> x + 1"
proof -
  have "unat x \<noteq> 4294967295"
  proof
    assume "unat x = 4294967295"
    then have "word_of_nat (unat x) = (word_of_nat 4294967295 :: u32)" by simp
    then show False using assms by simp
  qed
  moreover have "unat x < 2 ^ 32"
    using unsigned_less [of x, where ?'a = nat] by simp
  ultimately have "unat x + unat (1 :: u32) < 2 ^ LENGTH(32)" by simp
  then show ?thesis by (simp only: no_olen_add_nat)
qed

lemma ctor_generations:
  "ArrayLinkedList_soa d c = Inr s0 \<Longrightarrow> generations_soa s0 = replicate (unat c) 0"
  by (auto simp: ArrayLinkedList_soa_def split: if_splits)

lemma allocate_generations:
  assumes "mem_safe_soa s" and "allocate_node_soa v s = (Inr h, s1)"
  shows "in_range (length (generations_soa s)) (index h)"
    and "generations_soa s1 =
           (generations_soa s)[nat (index h) := generations_soa s ! nat (index h) + 1]"
  using assms
  by (auto simp: allocate_node_soa_def mem_safe_soa_def Let_def split: if_splits
      dest: list_all_last)

lemma release_generations: "generations_soa (release_node_soa i s) = generations_soa s"
  by (simp add: release_node_soa_def Let_def)

lemma exec_generations:
  assumes "exec_soa c s = (r, s2)"
  shows "generations_soa s2 =
     (case r of Handle h \<Rightarrow>
         (generations_soa s)[nat (index h) := generations_soa s ! nat (index h) + 1]
      | _ \<Rightarrow> generations_soa s)"
  using assms
  by (cases c)
    (auto simp: outcome_defs soa_op_defs release_generations Let_def
      split: sum.splits prod.splits if_splits)

lemma nth_list_update_other:
  "i \<noteq> j \<or> length xs \<le> j \<Longrightarrow> xs[i := v] ! j = xs ! j"
  by (cases "i = j") (auto simp: list_update_beyond)

lemma exec_generation_mono:
  assumes "exec_soa c s = (r, s2)" and "generations_soa s ! j \<noteq> 4294967295"
  shows "generations_soa s ! j \<le> generations_soa s2 ! j"
proof (cases "\<exists>h. r = Handle h \<and> nat (index h) = j \<and> j < length (generations_soa s)")
  case True
  then show ?thesis
    using exec_generations[OF assms(1)] u32_le_inc[OF assms(2)] by auto
next
  case False
  then have "generations_soa s2 ! j = generations_soa s ! j"
    using exec_generations[OF assms(1)]
    by (cases r) (auto simp: not_less intro!: nth_list_update_other)
  then show ?thesis by simp
qed

text \<open>
  Claim C4, as amended. Every slot's generation is 0 after construction. An allocation
  increments the generation of the allocated slot by exactly one modulo \<open>2 ^ 32\<close> and
  changes no other generation; a release changes none; so an operation changes a
  generation only when it returns a new handle, and then only that of the handle's
  slot. Over every operation each slot's generation is non-decreasing, except that
  the allocation of a slot whose generation is \<open>2 ^ 32 - 1\<close> wraps it to 0.
\<close>

theorem generation_steps:
  "(ArrayLinkedList_soa d c = Inr s0 \<longrightarrow> generations_soa s0 = replicate (unat c) 0)
   \<and> (mem_safe_soa s \<and> allocate_node_soa v s = (Inr h, s1) \<longrightarrow>
        in_range (length (generations_soa s)) (index h)
        \<and> generations_soa s1 =
            (generations_soa s)[nat (index h) := generations_soa s ! nat (index h) + 1])
   \<and> generations_soa (release_node_soa i s) = generations_soa s
   \<and> (exec_soa call s = (r, s2) \<longrightarrow>
        generations_soa s2 =
          (case r of
             Handle h' \<Rightarrow>
               (generations_soa s)[nat (index h') := generations_soa s ! nat (index h') + 1]
           | _ \<Rightarrow> generations_soa s))
   \<and> (exec_soa call s = (r, s2) \<and> generations_soa s ! j \<noteq> 4294967295 \<longrightarrow>
        generations_soa s ! j \<le> generations_soa s2 ! j)"
  using ctor_generations[of d c s0] allocate_generations[of s v h s1]
    release_generations[of i s] exec_generations[of call s r s2]
    exec_generation_mono[of call s r s2 j]
  by blast

theorem generation_steps_witness:
  "ArrayLinkedList_soa (0 :: int) 2 = Inr
      \<lparr>values_soa = [0, 0], next_soa = [- 1, - 1], prev_soa = [- 1, - 1],
       generations_soa = [0, 0], free_list_soa = [1, 0], head_soa = - 1, tail_soa = - 1,
       size_soa = 0\<rparr>
   \<and> mem_safe_soa \<lparr>values_soa = [0 :: int, 0], next_soa = [- 1, - 1], prev_soa = [- 1, - 1],
       generations_soa = [0, 0], free_list_soa = [1, 0], head_soa = - 1, tail_soa = - 1,
       size_soa = 0\<rparr>
   \<and> allocate_node_soa 5 \<lparr>values_soa = [0 :: int, 0], next_soa = [- 1, - 1],
       prev_soa = [- 1, - 1], generations_soa = [0, 0], free_list_soa = [1, 0],
       head_soa = - 1, tail_soa = - 1, size_soa = 0\<rparr>
     = (Inr \<lparr>index = 0, generation = 1\<rparr>,
        \<lparr>values_soa = [5, 0], next_soa = [- 1, - 1], prev_soa = [- 1, - 1],
         generations_soa = [1, 0], free_list_soa = [1], head_soa = - 1, tail_soa = - 1,
         size_soa = 0\<rparr>)
   \<and> exec_soa (PushBack 5) \<lparr>values_soa = [0 :: int, 0], next_soa = [- 1, - 1],
       prev_soa = [- 1, - 1], generations_soa = [0, 0], free_list_soa = [1, 0],
       head_soa = - 1, tail_soa = - 1, size_soa = 0\<rparr>
     = (Handle \<lparr>index = 0, generation = 1\<rparr>,
        \<lparr>values_soa = [5, 0], next_soa = [- 1, - 1], prev_soa = [- 1, - 1],
         generations_soa = [1, 0], free_list_soa = [1], head_soa = 0, tail_soa = 0,
         size_soa = 1\<rparr>)
   \<and> generations_soa \<lparr>values_soa = [0 :: int, 0], next_soa = [- 1, - 1],
       prev_soa = [- 1, - 1], generations_soa = [0, 0], free_list_soa = [1, 0],
       head_soa = - 1, tail_soa = - 1, size_soa = 0\<rparr> ! 0 \<noteq> 4294967295
   \<and> generations_soa \<lparr>values_soa = [0 :: int, 0], next_soa = [- 1, - 1],
       prev_soa = [- 1, - 1], generations_soa = [0, 0], free_list_soa = [1, 0],
       head_soa = - 1, tail_soa = - 1, size_soa = 0\<rparr> ! 0
     \<le> generations_soa \<lparr>values_soa = [5 :: int, 0], next_soa = [- 1, - 1],
         prev_soa = [- 1, - 1], generations_soa = [1, 0], free_list_soa = [1],
         head_soa = 0, tail_soa = 0, size_soa = 1\<rparr> ! 0"
proof -
  let ?s = "\<lparr>values_soa = [0 :: int, 0], next_soa = [- 1, - 1], prev_soa = [- 1, - 1],
       generations_soa = [0, 0], free_list_soa = [1, 0], head_soa = - 1, tail_soa = - 1,
       size_soa = 0\<rparr>"
  let ?s1 = "\<lparr>values_soa = [5 :: int, 0], next_soa = [- 1, - 1], prev_soa = [- 1, - 1],
         generations_soa = [1, 0], free_list_soa = [1], head_soa = - 1, tail_soa = - 1,
         size_soa = 0\<rparr>"
  let ?s2 = "\<lparr>values_soa = [5 :: int, 0], next_soa = [- 1, - 1], prev_soa = [- 1, - 1],
         generations_soa = [1, 0], free_list_soa = [1], head_soa = 0, tail_soa = 0,
         size_soa = 1\<rparr>"
  have 1: "ArrayLinkedList_soa (0 :: int) 2 = Inr ?s" by code_simp
  have 2: "mem_safe_soa ?s" by code_simp
  have 3: "allocate_node_soa 5 ?s = (Inr \<lparr>index = 0, generation = 1\<rparr>, ?s1)" by code_simp
  have 4: "exec_soa (PushBack 5) ?s = (Handle \<lparr>index = 0, generation = 1\<rparr>, ?s2)"
    by code_simp
  have 5: "generations_soa ?s ! 0 \<noteq> 4294967295" by simp
  have 6: "generations_soa ?s ! 0 \<le> generations_soa ?s2 ! 0"
    using 1 2 3 4 5
      generation_steps [of 0 2 ?s ?s 5 "\<lparr>index = 0, generation = 1\<rparr>" ?s1 0 "PushBack 5"
        "Handle \<lparr>index = 0, generation = 1\<rparr>" ?s2 0]
    by blast
  show ?thesis
    by (intro conjI 1 2 3 4 5 6)
qed

section \<open>Link vectors and chains\<close>

lemma chain_path_append:
  "chain_path l x (as @ bs) y \<longleftrightarrow> (\<exists>m. chain_path l x as m \<and> chain_path l m bs y)"
  by (induction as arbitrary: x) auto

lemma chain_path_snoc:
  "chain_path l x (as @ [a]) y \<longleftrightarrow> chain_path l x as a \<and> l ! nat a = y"
  by (auto simp: chain_path_append)

lemma chain_path_start:
  "chain_path l x is y \<Longrightarrow> x = (if is = [] then y else hd is)"
  by (cases "is") auto

lemma chain_path_read:
  "chain_path l x (as @ p # bs) y \<Longrightarrow> l ! nat p = (if bs = [] then y else hd bs)"
  by (cases bs) (auto simp: chain_path_append)

lemma chain_path_frame:
  "u \<notin> set is \<Longrightarrow> 0 \<le> u \<Longrightarrow> \<forall>a\<in>set is. 0 \<le> a \<Longrightarrow>
     chain_path (l[nat u := v]) x is y = chain_path l x is y"
proof (induction "is" arbitrary: x)
  case Nil
  then show ?case by simp
next
  case (Cons a as)
  then have "nat u \<noteq> nat a" by auto
  then show ?case using Cons by simp
qed

text \<open>Appending slot \<open>i\<close> behind the last slot \<open>t\<close> (or as the only slot).\<close>

lemma chain_link_last:
  assumes "chain_path l x is kNull" and "distinct is" and "\<forall>a\<in>set is. 0 \<le> a \<and> nat a < length l"
    and "i \<notin> set is" and "0 \<le> i" and "nat i < length l"
    and "t = (if is = [] then kNull else last is)"
  shows "chain_path (if t \<noteq> kNull then l[nat i := kNull, nat t := i] else l[nat i := kNull])
           (if t \<noteq> kNull then x else i) (is @ [i]) kNull"
proof (cases "is" rule: rev_cases)
  case Nil
  then show ?thesis using assms by simp
next
  case (snoc js t')
  then have t: "t = t'" "t \<noteq> kNull" "0 \<le> t" "nat t < length l" "t \<noteq> i" "nat t \<noteq> nat i"
    using assms by (auto simp: kNull_def)
  have js: "t \<notin> set js" "i \<notin> set js" "\<forall>a\<in>set js. 0 \<le> a"
    using assms snoc t by auto
  have "chain_path l x js t"
    using assms(1) snoc t by (simp add: chain_path_snoc)
  then have "chain_path (l[nat i := kNull, nat t := i]) x js t"
    using js t assms(5) by (simp add: chain_path_frame)
  then show ?thesis
    using snoc t assms(6) by (auto simp: chain_path_append)
qed

text \<open>Putting slot \<open>i\<close> in front of the chain that starts at \<open>x\<close>.\<close>

lemma chain_link_first:
  assumes "chain_path l x is y" and "\<forall>a\<in>set is. 0 \<le> a"
    and "i \<notin> set is" and "0 \<le> i" and "nat i < length l"
  shows "chain_path (l[nat i := x]) i (i # is) y"
  using assms by (simp add: chain_path_frame)

text \<open>Inserting slot \<open>i\<close> right behind slot \<open>p\<close>.\<close>

lemma chain_link_behind:
  assumes "chain_path l x (as @ p # bs) y" and "distinct (as @ p # bs)"
    and "\<forall>a\<in>set (as @ p # bs). 0 \<le> a \<and> nat a < length l"
    and "i \<notin> set (as @ p # bs)" and "0 \<le> i" and "nat i < length l"
  shows "chain_path (l[nat i := l ! nat p, nat p := i]) x (as @ p # i # bs) y"
proof -
  have ne: "nat i \<noteq> nat p" using assms by auto
  have 1: "chain_path l x as p" and 2: "chain_path l (l ! nat p) bs y"
    using assms(1) by (auto simp: chain_path_append)
  have "chain_path (l[nat i := l ! nat p, nat p := i]) x as p"
    using 1 assms by (simp add: chain_path_frame)
  moreover have "chain_path (l[nat i := l ! nat p, nat p := i]) (l ! nat p) bs y"
    using 2 assms by (simp add: chain_path_frame)
  moreover have "l[nat i := l ! nat p, nat p := i] ! nat p = i"
    using assms by simp
  moreover have "l[nat i := l ! nat p, nat p := i] ! nat i = l ! nat p"
    using assms ne by simp
  ultimately show ?thesis
    by (simp add: chain_path_append)
qed

text \<open>Inserting slot \<open>i\<close> right before slot \<open>p\<close>, whose predecessor is \<open>q\<close>.\<close>

lemma chain_link_before:
  assumes "chain_path l x (cs @ p # ds) y" and "distinct (cs @ p # ds)"
    and "\<forall>a\<in>set (cs @ p # ds). 0 \<le> a \<and> nat a < length l"
    and "i \<notin> set (cs @ p # ds)" and "0 \<le> i" and "nat i < length l"
    and "q = (if cs = [] then kNull else last cs)"
  shows "chain_path (if q \<noteq> kNull then l[nat i := p, nat q := i] else l[nat i := p])
           (if q \<noteq> kNull then x else i) (cs @ i # p # ds) y"
proof (cases cs rule: rev_cases)
  case Nil
  then show ?thesis
    using assms chain_link_first[of l x "p # ds" y i] by simp
next
  case (snoc es q')
  then have q: "q = q'" "q \<noteq> kNull" "0 \<le> q" "nat q < length l" "nat q \<noteq> nat i"
    using assms by (auto simp: kNull_def)
  have 1: "chain_path l x es q" and 2: "chain_path l p (p # ds) y"
    using assms(1) snoc q by (auto simp: chain_path_append)
  have "chain_path (l[nat i := p, nat q := i]) x es q"
    using 1 assms snoc q by (simp add: chain_path_frame)
  moreover have "chain_path (l[nat i := p, nat q := i]) p (p # ds) y"
    using 2 assms snoc q chain_path_frame[of q "p # ds" "l[nat i := p]" i p y]
      chain_path_frame[of i "p # ds" l p p y]
    by simp
  moreover have "l[nat i := p, nat q := i] ! nat q = i"
    using q by simp
  moreover have "l[nat i := p, nat q := i] ! nat i = p"
    using q assms by simp
  ultimately show ?thesis
    using snoc q by (simp add: chain_path_append)
qed

text \<open>
  Taking slot \<open>p\<close> out of the chain: its predecessor \<open>q\<close> (or the start) is pointed
  to its successor \<open>r\<close>, and the link of \<open>p\<close> is cleared.
\<close>

lemma chain_unlink:
  assumes "chain_path l x (as @ p # bs) y" and "distinct (as @ p # bs)"
    and "\<forall>a\<in>set (as @ p # bs). 0 \<le> a \<and> nat a < length l"
    and "q = (if as = [] then kNull else last as)" and "r = l ! nat p"
  shows "chain_path ((if q \<noteq> kNull then l[nat q := r] else l)[nat p := z])
           (if q \<noteq> kNull then x else r) (as @ bs) y"
proof -
  have r: "chain_path l r bs y"
    using assms(1,5) by (auto simp: chain_path_append)
  have pbs: "p \<notin> set bs" "p \<notin> set as" "0 \<le> p" "\<forall>a\<in>set bs. 0 \<le> a" "\<forall>a\<in>set as. 0 \<le> a"
    using assms(2,3) by auto
  show ?thesis
  proof (cases as rule: rev_cases)
    case Nil
    then show ?thesis
      using assms r pbs by (simp add: chain_path_frame)
  next
    case (snoc es q')
    then have q: "q = q'" "q \<noteq> kNull" "0 \<le> q" "nat q < length l" "nat q \<noteq> nat p"
      "q \<notin> set es" "q \<notin> set bs" "p \<notin> set es"
      using assms by (auto simp: kNull_def)
    have 1: "chain_path l x es q"
      using assms(1) snoc q by (auto simp: chain_path_append)
    have "chain_path (l[nat q := r, nat p := z]) x es q"
      using 1 q pbs snoc by (simp add: chain_path_frame)
    moreover have "chain_path (l[nat q := r, nat p := z]) r bs y"
      using r q pbs by (simp add: chain_path_frame)
    moreover have "l[nat q := r, nat p := z] ! nat q = r"
      using q by simp
    ultimately show ?thesis
      using snoc q by (simp add: chain_path_append)
  qed
qed

section \<open>Well-formed lists\<close>

lemma in_range_nonneg: "in_range n a \<Longrightarrow> 0 \<le> a \<and> nat a < n \<and> a \<noteq> kNull"
  by (auto simp: in_range_def kNull_def)

lemma wf_lengths:
  assumes "wf_soa s is"
  shows "length (next_soa s) = length (values_soa s)"
    and "length (prev_soa s) = length (values_soa s)"
    and "length (generations_soa s) = length (values_soa s)"
    and "length (values_soa s) < 2 ^ 64"
    and "length is + length (free_list_soa s) = length (values_soa s)"
  using assms by (simp_all add: wf_soa_def Let_def)

lemma wf_members:
  assumes "wf_soa s is"
  shows "a \<in> set is \<Longrightarrow> 0 \<le> a \<and> nat a < length (values_soa s) \<and> a \<noteq> kNull"
    and "a \<in> set (free_list_soa s) \<Longrightarrow>
           0 \<le> a \<and> nat a < length (values_soa s) \<and> a \<noteq> kNull \<and> a \<notin> set is
           \<and> next_soa s ! nat a = kNull \<and> prev_soa s ! nat a = kNull"
    and "distinct is" and "distinct (free_list_soa s)"
  using assms by (auto simp: wf_soa_def Let_def list_all_iff dest: in_range_nonneg)

lemma wf_chains:
  assumes "wf_soa s is"
  shows "chain_path (next_soa s) (head_soa s) is kNull"
    and "chain_path (prev_soa s) (tail_soa s) (rev is) kNull"
    and "head_soa s = (if is = [] then kNull else hd is)"
    and "tail_soa s = (if is = [] then kNull else last is)"
    and "size_soa s = word_of_nat (length is)"
proof -
  show 1: "chain_path (next_soa s) (head_soa s) is kNull"
    and 2: "chain_path (prev_soa s) (tail_soa s) (rev is) kNull"
    and "size_soa s = word_of_nat (length is)"
    using assms by (simp_all add: wf_soa_def Let_def)
  show "head_soa s = (if is = [] then kNull else hd is)"
    using chain_path_start[OF 1] .
  show "tail_soa s = (if is = [] then kNull else last is)"
    using chain_path_start[OF 2] by (simp add: hd_rev)
qed

lemma wf_links:
  assumes "wf_soa s (as @ p # bs)"
  shows "next_soa s ! nat p = (if bs = [] then kNull else hd bs)"
    and "prev_soa s ! nat p = (if as = [] then kNull else last as)"
proof -
  show "next_soa s ! nat p = (if bs = [] then kNull else hd bs)"
    using chain_path_read[OF wf_chains(1)[OF assms]] .
  have "chain_path (prev_soa s) (tail_soa s) (rev bs @ p # rev as) kNull"
    using wf_chains(2)[OF assms] by simp
  from chain_path_read[OF this]
  show "prev_soa s ! nat p = (if as = [] then kNull else last as)"
    by (simp add: hd_rev)
qed

lemma wf_size:
  assumes "wf_soa s is"
  shows "unat (size_soa s) = length is"
proof -
  have "length is < 2 ^ 64"
    using wf_lengths(4,5)[OF assms] by simp
  then show ?thesis
    using wf_chains(5)[OF assms] of_nat_inverse[of "length is" "size_soa s"] by simp
qed

lemma allocate_node_wf:
  assumes "wf_soa s is" and "free_list_soa s = fl @ [idx]"
  shows "allocate_node_soa v s =
     (Inr \<lparr>index = idx, generation = generations_soa s ! nat idx + 1\<rparr>,
      s\<lparr>free_list_soa := fl,
        values_soa := (values_soa s)[nat idx := v],
        generations_soa := (generations_soa s)[nat idx := generations_soa s ! nat idx + 1]\<rparr>)"
proof -
  have m: "0 \<le> idx \<and> nat idx < length (values_soa s) \<and> next_soa s ! nat idx = kNull
      \<and> prev_soa s ! nat idx = kNull"
    using wf_members(2)[OF assms(1), of idx] assms(2) by simp
  then have "(next_soa s)[nat idx := kNull] = next_soa s"
    and "(prev_soa s)[nat idx := kNull] = prev_soa s"
    by (metis list_update_id)+
  then show ?thesis
    using assms(2) m wf_lengths(3)[OF assms(1)]
    by (simp add: allocate_node_soa_def Let_def)
qed

lemma emplace_back_wf:
  assumes "wf_soa s is" and "free_list_soa s = fl @ [idx]"
  shows "\<exists>s'. emplace_back_soa v s =
            (Inr \<lparr>index = idx, generation = generations_soa s ! nat idx + 1\<rparr>, s')
          \<and> wf_soa s' (is @ [idx])
          \<and> values_soa s' = (values_soa s)[nat idx := v]
          \<and> generations_soa s' =
              (generations_soa s)[nat idx := generations_soa s ! nat idx + 1]
          \<and> free_list_soa s' = fl"
proof -
  let ?t = "tail_soa s"
  let ?s' = "s\<lparr>free_list_soa := fl,
        values_soa := (values_soa s)[nat idx := v],
        generations_soa := (generations_soa s)[nat idx := generations_soa s ! nat idx + 1],
        next_soa := (if ?t \<noteq> kNull then (next_soa s)[nat idx := kNull, nat ?t := idx]
                     else (next_soa s)[nat idx := kNull]),
        prev_soa := (prev_soa s)[nat idx := ?t],
        head_soa := (if ?t \<noteq> kNull then head_soa s else idx),
        tail_soa := idx,
        size_soa := size_soa s + 1\<rparr>"
  have eq: "emplace_back_soa v s =
      (Inr \<lparr>index = idx, generation = generations_soa s ! nat idx + 1\<rparr>, ?s')"
    by (simp add: emplace_back_soa_def allocate_node_wf[OF assms] Let_def)
  note len = wf_lengths[OF assms(1)]
  have idx: "0 \<le> idx" "nat idx < length (values_soa s)" "idx \<notin> set is" "idx \<notin> set fl"
    using wf_members(2)[OF assms(1), of idx] wf_members(4)[OF assms(1)] assms(2) by auto
  have mem: "\<forall>a\<in>set is. 0 \<le> a \<and> nat a < length (next_soa s)"
    "\<forall>a\<in>set is. 0 \<le> a" "\<forall>a\<in>set (rev is). 0 \<le> a"
    using wf_members(1)[OF assms(1)] len by auto
  have t: "?t = (if is = [] then kNull else last is)"
    using wf_chains(4)[OF assms(1)] .
  have nx: "chain_path (next_soa ?s') (head_soa ?s') (is @ [idx]) kNull"
    using chain_link_last[OF wf_chains(1)[OF assms(1)] wf_members(3)[OF assms(1)] mem(1)
        idx(3) idx(1) _ t] idx(2) len
    by simp
  have pv: "chain_path (prev_soa ?s') (tail_soa ?s') (rev (is @ [idx])) kNull"
    using chain_link_first[OF wf_chains(2)[OF assms(1)] mem(3), of idx] idx len
    by simp
  have fr: "list_all (\<lambda>i. next_soa ?s' ! nat i = kNull \<and> prev_soa ?s' ! nat i = kNull) fl"
  proof -
    have "next_soa ?s' ! nat j = kNull \<and> prev_soa ?s' ! nat j = kNull" if "j \<in> set fl" for j
    proof -
      have j: "0 \<le> j" "j \<noteq> idx" "j \<notin> set is" "next_soa s ! nat j = kNull"
        "prev_soa s ! nat j = kNull"
        using wf_members(2)[OF assms(1), of j] that assms(2) idx(4) by auto
      have "j \<noteq> ?t \<or> ?t = kNull"
        using t j(3) by auto
      then have "nat j \<noteq> nat ?t \<or> ?t = kNull" "nat j \<noteq> nat idx"
        using j idx(1) wf_members(1)[OF assms(1), of ?t] t by auto
      then show ?thesis using j by auto
    qed
    then show ?thesis by (simp add: list_all_iff)
  qed
  have ds: "distinct ((is @ [idx]) @ fl)"
    and ir: "list_all (in_range (length (values_soa s))) ((is @ [idx]) @ fl)"
    using assms by (auto simp: wf_soa_def Let_def)
  have "wf_soa ?s' (is @ [idx])"
    unfolding wf_soa_def Let_def
    using nx pv fr ds ir len assms(2) wf_chains(5)[OF assms(1)]
    by simp
  then show ?thesis using eq by simp
qed

lemma emplace_front_wf:
  assumes "wf_soa s is" and "free_list_soa s = fl @ [idx]"
  shows "\<exists>s'. emplace_front_soa v s =
            (Inr \<lparr>index = idx, generation = generations_soa s ! nat idx + 1\<rparr>, s')
          \<and> wf_soa s' (idx # is)
          \<and> values_soa s' = (values_soa s)[nat idx := v]
          \<and> generations_soa s' =
              (generations_soa s)[nat idx := generations_soa s ! nat idx + 1]
          \<and> free_list_soa s' = fl"
proof -
  let ?h = "head_soa s"
  let ?s' = "s\<lparr>free_list_soa := fl,
        values_soa := (values_soa s)[nat idx := v],
        generations_soa := (generations_soa s)[nat idx := generations_soa s ! nat idx + 1],
        prev_soa := (if ?h \<noteq> kNull then (prev_soa s)[nat idx := kNull, nat ?h := idx]
                     else (prev_soa s)[nat idx := kNull]),
        next_soa := (next_soa s)[nat idx := ?h],
        tail_soa := (if ?h \<noteq> kNull then tail_soa s else idx),
        head_soa := idx,
        size_soa := size_soa s + 1\<rparr>"
  have eq: "emplace_front_soa v s =
      (Inr \<lparr>index = idx, generation = generations_soa s ! nat idx + 1\<rparr>, ?s')"
    by (simp add: emplace_front_soa_def allocate_node_wf[OF assms] Let_def)
  note len = wf_lengths[OF assms(1)]
  have idx: "0 \<le> idx" "nat idx < length (values_soa s)" "idx \<notin> set is" "idx \<notin> set fl"
    using wf_members(2)[OF assms(1), of idx] wf_members(4)[OF assms(1)] assms(2) by auto
  have mem: "\<forall>a\<in>set (rev is). 0 \<le> a \<and> nat a < length (prev_soa s)"
    "\<forall>a\<in>set is. 0 \<le> a" "distinct (rev is)" "idx \<notin> set (rev is)"
    using wf_members(1)[OF assms(1)] wf_members(3)[OF assms(1)] len idx(3) by auto
  have h: "?h = (if rev is = [] then kNull else last (rev is))"
    using wf_chains(3)[OF assms(1)] by (simp add: last_rev)
  have pv: "chain_path (prev_soa ?s') (tail_soa ?s') (rev (idx # is)) kNull"
    using chain_link_last[OF wf_chains(2)[OF assms(1)] mem(3) mem(1) mem(4) idx(1) _ h]
      idx(2) len
    by simp
  have nx: "chain_path (next_soa ?s') (head_soa ?s') (idx # is) kNull"
    using chain_link_first[OF wf_chains(1)[OF assms(1)] mem(2), of idx] idx len
    by simp
  have fr: "list_all (\<lambda>i. next_soa ?s' ! nat i = kNull \<and> prev_soa ?s' ! nat i = kNull) fl"
  proof -
    have "next_soa ?s' ! nat j = kNull \<and> prev_soa ?s' ! nat j = kNull" if "j \<in> set fl" for j
    proof -
      have j: "0 \<le> j" "j \<noteq> idx" "j \<notin> set is" "next_soa s ! nat j = kNull"
        "prev_soa s ! nat j = kNull"
        using wf_members(2)[OF assms(1), of j] that assms(2) idx(4) by auto
      have "j \<noteq> ?h \<or> ?h = kNull"
        using wf_chains(3)[OF assms(1)] j(3) by auto
      then have "nat j \<noteq> nat ?h \<or> ?h = kNull" "nat j \<noteq> nat idx"
        using j idx(1) wf_members(1)[OF assms(1), of ?h] wf_chains(3)[OF assms(1)] by auto
      then show ?thesis using j by auto
    qed
    then show ?thesis by (simp add: list_all_iff)
  qed
  have ds: "distinct ((idx # is) @ fl)"
    and ir: "list_all (in_range (length (values_soa s))) ((idx # is) @ fl)"
    using assms by (auto simp: wf_soa_def Let_def)
  have "wf_soa ?s' (idx # is)"
    unfolding wf_soa_def Let_def
    using nx pv fr ds ir len assms(2) wf_chains(5)[OF assms(1)]
    by simp
  then show ?thesis using eq by simp
qed

lemma emplace_after_wf:
  assumes "wf_soa s (as @ p # bs)" and "free_list_soa s = fl @ [idx]"
    and "ensure_valid_handle_soa h s = Inr ()" and "index h = p"
  shows "\<exists>s'. emplace_after_soa h v s =
            (Inr \<lparr>index = idx, generation = generations_soa s ! nat idx + 1\<rparr>, s')
          \<and> wf_soa s' (as @ p # idx # bs)
          \<and> values_soa s' = (values_soa s)[nat idx := v]
          \<and> generations_soa s' =
              (generations_soa s)[nat idx := generations_soa s ! nat idx + 1]
          \<and> free_list_soa s' = fl"
proof -
  let ?r = "next_soa s ! nat p"
  let ?is = "as @ p # bs"
  let ?s' = "s\<lparr>free_list_soa := fl,
        values_soa := (values_soa s)[nat idx := v],
        generations_soa := (generations_soa s)[nat idx := generations_soa s ! nat idx + 1],
        prev_soa := (if ?r \<noteq> kNull then (prev_soa s)[nat idx := p, nat ?r := idx]
                     else (prev_soa s)[nat idx := p]),
        next_soa := (next_soa s)[nat idx := ?r, nat p := idx],
        tail_soa := (if ?r \<noteq> kNull then tail_soa s else idx),
        size_soa := size_soa s + 1\<rparr>"
  have eq: "emplace_after_soa h v s =
      (Inr \<lparr>index = idx, generation = generations_soa s ! nat idx + 1\<rparr>, ?s')"
    using assms(3,4)
    by (simp add: emplace_after_soa_def allocate_node_wf[OF assms(1,2)] Let_def)
  note len = wf_lengths[OF assms(1)]
  have idx: "0 \<le> idx" "nat idx < length (values_soa s)" "idx \<notin> set ?is" "idx \<notin> set fl"
    using wf_members(2)[OF assms(1), of idx] wf_members(4)[OF assms(1)] assms(2) by auto
  have r: "?r = (if bs = [] then kNull else hd bs)"
    using wf_links(1)[OF assms(1)] .
  have memn: "\<forall>a\<in>set ?is. 0 \<le> a \<and> nat a < length (next_soa s)"
    and memp: "\<forall>a\<in>set (rev bs @ p # rev as). 0 \<le> a \<and> nat a < length (prev_soa s)"
    and dn: "distinct ?is" and dp: "distinct (rev bs @ p # rev as)"
    and ip: "idx \<notin> set (rev bs @ p # rev as)"
    using wf_members(1)[OF assms(1)] wf_members(3)[OF assms(1)] len idx(3) by auto
  have nx: "chain_path (next_soa ?s') (head_soa ?s') (as @ p # idx # bs) kNull"
    using chain_link_behind[OF wf_chains(1)[OF assms(1)] dn memn idx(3) idx(1)] idx(2) len
    by simp
  have pc: "chain_path (prev_soa s) (tail_soa s) (rev bs @ p # rev as) kNull"
    using wf_chains(2)[OF assms(1)] by simp
  have rq: "?r = (if rev bs = [] then kNull else last (rev bs))"
    using r by (simp add: last_rev)
  have pv: "chain_path (prev_soa ?s') (tail_soa ?s') (rev (as @ p # idx # bs)) kNull"
    using chain_link_before[OF pc dp memp ip idx(1) _ rq] idx(2) len
    by simp
  have fr: "list_all (\<lambda>i. next_soa ?s' ! nat i = kNull \<and> prev_soa ?s' ! nat i = kNull) fl"
  proof -
    have "next_soa ?s' ! nat j = kNull \<and> prev_soa ?s' ! nat j = kNull" if "j \<in> set fl" for j
    proof -
      have j: "0 \<le> j" "j \<noteq> idx" "j \<notin> set ?is" "next_soa s ! nat j = kNull"
        "prev_soa s ! nat j = kNull"
        using wf_members(2)[OF assms(1), of j] that assms(2) idx(4) by auto
      have "j \<noteq> ?r \<or> ?r = kNull" "j \<noteq> p"
        using r j(3) by auto
      then have "nat j \<noteq> nat ?r \<or> ?r = kNull" "nat j \<noteq> nat idx" "nat j \<noteq> nat p"
        using j idx(1) wf_members(1)[OF assms(1), of ?r] wf_members(1)[OF assms(1), of p] r
        by auto
      then show ?thesis using j by auto
    qed
    then show ?thesis by (simp add: list_all_iff)
  qed
  have ds: "distinct ((as @ p # idx # bs) @ fl)"
    and ir: "list_all (in_range (length (values_soa s))) ((as @ p # idx # bs) @ fl)"
    using assms(1,2) by (auto simp: wf_soa_def Let_def)
  have hd: "head_soa ?s' = head_soa s" by simp
  have "wf_soa ?s' (as @ p # idx # bs)"
    unfolding wf_soa_def Let_def
    using nx pv fr ds ir len assms(2) wf_chains(5)[OF assms(1)]
    by simp
  then show ?thesis using eq by simp
qed

text \<open>
  The state after slot \<open>p\<close>, with predecessor \<open>q\<close> and successor \<open>r\<close> (each \<open>kNull\<close>
  when absent), has been spliced out and released. \<^verbatim>\<open>erase\<close>, \<^verbatim>\<open>erase_after\<close> and
  \<^verbatim>\<open>pop_front\<close> all end in this state.
\<close>

lemma unlink_wf:
  assumes "wf_soa s (as @ p # bs)"
    and "q = (if as = [] then kNull else last as)"
    and "r = (if bs = [] then kNull else hd bs)"
  shows "wf_soa
    (s\<lparr>next_soa := (if q \<noteq> kNull then (next_soa s)[nat q := r] else next_soa s)[nat p := kNull],
       head_soa := (if q \<noteq> kNull then head_soa s else r),
       prev_soa := (if r \<noteq> kNull then (prev_soa s)[nat r := q] else prev_soa s)[nat p := kNull],
       tail_soa := (if r \<noteq> kNull then tail_soa s else q),
       size_soa := size_soa s - 1,
       free_list_soa := free_list_soa s @ [p]\<rparr>)
    (as @ bs)"
  (is "wf_soa ?s' _")
proof -
  let ?is = "as @ p # bs"
  note len = wf_lengths[OF assms(1)]
  have rn: "r = next_soa s ! nat p" and qp: "q = prev_soa s ! nat p"
    using wf_links[OF assms(1)] assms(2,3) by simp_all
  have memn: "\<forall>a\<in>set ?is. 0 \<le> a \<and> nat a < length (next_soa s)"
    and memp: "\<forall>a\<in>set (rev bs @ p # rev as). 0 \<le> a \<and> nat a < length (prev_soa s)"
    and dn: "distinct ?is" and dp: "distinct (rev bs @ p # rev as)"
    using wf_members(1)[OF assms(1)] wf_members(3)[OF assms(1)] len by auto
  have nx: "chain_path (next_soa ?s') (head_soa ?s') (as @ bs) kNull"
    using chain_unlink[OF wf_chains(1)[OF assms(1)] dn memn assms(2) rn, of kNull]
    by simp
  have pc: "chain_path (prev_soa s) (tail_soa s) (rev bs @ p # rev as) kNull"
    using wf_chains(2)[OF assms(1)] by simp
  have rq: "r = (if rev bs = [] then kNull else last (rev bs))"
    using assms(3) by (simp add: last_rev)
  have pv: "chain_path (prev_soa ?s') (tail_soa ?s') (rev (as @ bs)) kNull"
    using chain_unlink[OF pc dp memp rq qp, of kNull]
    by simp
  have p: "0 \<le> p" "nat p < length (values_soa s)" "p \<notin> set (free_list_soa s)"
    using wf_members(1)[OF assms(1), of p] wf_members(2)[OF assms(1), of p] by auto
  have qr: "q = kNull \<or> q \<in> set ?is" "r = kNull \<or> r \<in> set ?is"
    using assms(2,3) by auto
  have fr: "list_all (\<lambda>i. next_soa ?s' ! nat i = kNull \<and> prev_soa ?s' ! nat i = kNull)
      (free_list_soa s @ [p])"
  proof -
    have "next_soa ?s' ! nat j = kNull \<and> prev_soa ?s' ! nat j = kNull"
      if "j \<in> set (free_list_soa s)" for j
    proof -
      have j: "0 \<le> j" "j \<notin> set ?is" "next_soa s ! nat j = kNull"
        "prev_soa s ! nat j = kNull"
        using wf_members(2)[OF assms(1), of j] that by auto
      have "j \<noteq> q \<or> q = kNull" "j \<noteq> r \<or> r = kNull" "j \<noteq> p"
        using qr j(2) by auto
      then have "nat j \<noteq> nat q \<or> q = kNull" "nat j \<noteq> nat r \<or> r = kNull" "nat j \<noteq> nat p"
        using j p(1) qr wf_members(1)[OF assms(1), of q] wf_members(1)[OF assms(1), of r]
        by auto
      then show ?thesis using j by auto
    qed
    moreover have "next_soa ?s' ! nat p = kNull \<and> prev_soa ?s' ! nat p = kNull"
      using p len by simp
    ultimately show ?thesis by (simp add: list_all_iff)
  qed
  have ds: "distinct ((as @ bs) @ free_list_soa s @ [p])"
    and ir: "list_all (in_range (length (values_soa s))) ((as @ bs) @ free_list_soa s @ [p])"
    using assms(1) by (auto simp: wf_soa_def Let_def)
  have sz: "size_soa s - 1 = word_of_nat (length (as @ bs))"
    using wf_chains(5)[OF assms(1)] by simp
  show ?thesis
    unfolding wf_soa_def Let_def
    using nx pv fr ds ir len sz
    by simp
qed

lemma erase_wf:
  assumes "wf_soa s (as @ p # bs)" and "ensure_valid_handle_soa h s = Inr ()" and "index h = p"
  shows "\<exists>s'. erase_soa h s = (Inr (), s') \<and> wf_soa s' (as @ bs)
          \<and> values_soa s' = values_soa s \<and> generations_soa s' = generations_soa s
          \<and> free_list_soa s' = free_list_soa s @ [p]"
proof -
  let ?q = "if as = [] then kNull else last as"
  let ?r = "if bs = [] then kNull else hd bs"
  have l: "next_soa s ! nat p = ?r" "prev_soa s ! nat p = ?q"
    using wf_links[OF assms(1)] by simp_all
  have "erase_soa h s = (Inr (),
     s\<lparr>next_soa := (if ?q \<noteq> kNull then (next_soa s)[nat ?q := ?r] else next_soa s)[nat p := kNull],
       head_soa := (if ?q \<noteq> kNull then head_soa s else ?r),
       prev_soa := (if ?r \<noteq> kNull then (prev_soa s)[nat ?r := ?q] else prev_soa s)[nat p := kNull],
       tail_soa := (if ?r \<noteq> kNull then tail_soa s else ?q),
       size_soa := size_soa s - 1,
       free_list_soa := free_list_soa s @ [p]\<rparr>)"
    using assms(2,3) l
    by (simp add: erase_soa_def release_node_soa_def Let_def)
  then show ?thesis
    using unlink_wf[OF assms(1) refl refl] by simp
qed

lemma pop_front_wf:
  assumes "wf_soa s (p # bs)"
  shows "\<exists>s'. pop_front_soa s = (Inr (values_soa s ! nat p), s') \<and> wf_soa s' bs
          \<and> values_soa s' = values_soa s \<and> generations_soa s' = generations_soa s
          \<and> free_list_soa s' = free_list_soa s @ [p]"
proof -
  let ?r = "if bs = [] then kNull else hd bs"
  have l: "next_soa s ! nat p = ?r" "prev_soa s ! nat p = kNull"
    using wf_links[of s "[]" p bs] assms by simp_all
  have h: "head_soa s = p" "p \<noteq> kNull"
    using wf_chains(3)[OF assms] wf_members(1)[OF assms, of p] by simp_all
  have t: "bs = [] \<Longrightarrow> tail_soa s = p"
    using wf_chains(4)[OF assms] by simp
  have "pop_front_soa s = (Inr (values_soa s ! nat p),
     s\<lparr>next_soa := (next_soa s)[nat p := kNull],
       head_soa := ?r,
       prev_soa := (if ?r \<noteq> kNull then (prev_soa s)[nat ?r := kNull] else prev_soa s)[nat p := kNull],
       tail_soa := (if ?r \<noteq> kNull then tail_soa s else kNull),
       size_soa := size_soa s - 1,
       free_list_soa := free_list_soa s @ [p]\<rparr>)"
    using h l
    by (simp add: pop_front_soa_def release_node_soa_def Let_def)
  then show ?thesis
    using unlink_wf[of s "[]" p bs kNull ?r] assms by simp
qed

lemma pop_front_empty:
  assumes "wf_soa s []"
  shows "pop_front_soa s = (Inl Empty, s)"
  using wf_chains(3)[OF assms] by (simp add: pop_front_soa_def)

lemma erase_after_wf:
  assumes "wf_soa s (as @ p # t # cs)" and "ensure_valid_handle_soa h s = Inr ()"
    and "index h = p"
  shows "\<exists>s'. erase_after_soa h s = (Inr (), s') \<and> wf_soa s' (as @ p # cs)
          \<and> values_soa s' = values_soa s \<and> generations_soa s' = generations_soa s
          \<and> free_list_soa s' = free_list_soa s @ [t]"
proof -
  let ?r = "if cs = [] then kNull else hd cs"
  have wf': "wf_soa s ((as @ [p]) @ t # cs)"
    using assms(1) by simp
  have l: "next_soa s ! nat p = t" "next_soa s ! nat t = ?r"
    using wf_links(1)[OF assms(1)] wf_links(1)[OF wf'] by simp_all
  have tn: "t \<noteq> kNull" "p \<noteq> kNull"
    using wf_members(1)[OF assms(1), of t] wf_members(1)[OF assms(1), of p] by simp_all
  have "erase_after_soa h s = (Inr (),
     s\<lparr>next_soa := (next_soa s)[nat p := ?r, nat t := kNull],
       head_soa := head_soa s,
       prev_soa := (if ?r \<noteq> kNull then (prev_soa s)[nat ?r := p] else prev_soa s)[nat t := kNull],
       tail_soa := (if ?r \<noteq> kNull then tail_soa s else p),
       size_soa := size_soa s - 1,
       free_list_soa := free_list_soa s @ [t]\<rparr>)"
    using assms(2,3) l tn
    by (simp add: erase_after_soa_def release_node_soa_def Let_def)
  then show ?thesis
    using unlink_wf[OF wf', of p ?r] tn by simp
qed

lemma wf_cover:
  assumes "wf_soa s is" and "0 \<le> i" and "nat i < length (values_soa s)"
  shows "i \<in> set is \<or> i \<in> set (free_list_soa s)"
proof -
  let ?n = "length (values_soa s)"
  let ?xs = "is @ free_list_soa s"
  have sub: "set ?xs \<subseteq> int ` {0..<?n}"
  proof
    fix a assume "a \<in> set ?xs"
    then have "0 \<le> a \<and> nat a < ?n"
      using wf_members(1,2)[OF assms(1), of a] by auto
    then have "a = int (nat a)" "nat a \<in> {0..<?n}" by auto
    then show "a \<in> int ` {0..<?n}" by blast
  qed
  have "distinct ?xs" using assms(1) by (simp add: wf_soa_def Let_def)
  then have "card (set ?xs) = length ?xs"
    by (rule distinct_card)
  moreover have "length ?xs = ?n"
    using wf_lengths(5)[OF assms(1)] by simp
  ultimately have "card (set ?xs) = ?n"
    by (simp only:)
  moreover have "card (int ` {0..<?n}) = ?n"
    by (simp add: card_image)
  ultimately have "set ?xs = int ` {0..<?n}"
    using sub by (simp add: card_subset_eq)
  moreover have "i \<in> int ` {0..<?n}"
    using assms(2,3) by (metis atLeastLessThan_iff image_eqI int_nat_eq le0)
  ultimately show ?thesis by auto
qed

lemma erase_after_no_successor:
  assumes "wf_soa s is" and "ensure_valid_handle_soa h s = Inr ()"
    and "index h \<notin> set is \<or> index h = last is"
  shows "erase_after_soa h s = (Inl NoSuccessor, s)"
proof -
  have r: "0 \<le> index h" "nat (index h) < length (values_soa s)"
    using assms(2) by (simp_all add: valid_handle_soa_iff in_range_def)
  have "next_soa s ! nat (index h) = kNull"
  proof (cases "index h \<in> set is")
    case False
    then have "index h \<in> set (free_list_soa s)"
      using wf_cover[OF assms(1) r] by simp
    then show ?thesis using wf_members(2)[OF assms(1)] by simp
  next
    case True
    then have "is \<noteq> []" and "index h = last is" using assms(3) by auto
    then have "is = butlast is @ index h # []" by simp
    then have "wf_soa s (butlast is @ index h # [])" using assms(1) by simp
    from wf_links(1)[OF this] show ?thesis by simp
  qed
  then show ?thesis
    using assms(2) by (simp add: erase_after_soa_def Let_def)
qed

lemma for_each_from_chain:
  assumes "chain_path (next_soa s) x is kNull" and "\<forall>a\<in>set is. a \<noteq> kNull"
  shows "for_each_from_soa s x = Some (map (\<lambda>i. (values_soa s ! nat i, i)) is)"
  using assms
proof (induction "is" arbitrary: x)
  case Nil
  then show ?case by (simp add: for_each_from_soa.simps)
next
  case (Cons a as)
  then have "x = a" "a \<noteq> kNull" "chain_path (next_soa s) (next_soa s ! nat a) as kNull"
    by simp_all
  then show ?case
    using Cons.IH[of "next_soa s ! nat a"] Cons.prems(2)
    by (subst for_each_from_soa.simps) simp
qed

lemma for_each_wf:
  assumes "wf_soa s is"
  shows "for_each_soa s = Some (map (\<lambda>i. (values_soa s ! nat i, i)) is)"
  using for_each_from_chain[OF wf_chains(1)[OF assms]] wf_members(1)[OF assms]
  by (simp add: for_each_soa_def)

lemma in_list_wf:
  assumes "wf_soa s is"
  shows "in_list_soa s i \<longleftrightarrow> i \<in> set is"
  by (simp add: in_list_soa_def for_each_wf[OF assms] comp_def)

lemma wf_ctor:
  assumes "ArrayLinkedList_soa d c = Inr s" and "unat c \<le> 2 ^ 31"
  shows "wf_soa s []" and "free_list_soa s = map int (rev [0..<unat c])"
    and "values_soa s = replicate (unat c) d"
proof -
  have c: "c \<noteq> 0" using assms(1) by (auto simp: ArrayLinkedList_soa_def)
  have s: "s = \<lparr> values_soa = replicate (unat c) d,
                 next_soa = replicate (unat c) kNull,
                 prev_soa = replicate (unat c) kNull,
                 generations_soa = replicate (unat c) 0,
                 free_list_soa = map int (rev [0..<unat c]),
                 head_soa = kNull,
                 tail_soa = kNull,
                 size_soa = 0 \<rparr>"
    using assms c by (simp add: ArrayLinkedList_soa_def fill_free_list_eq)
  have "unat c < 2 ^ 64"
    using unsigned_less [of c, where ?'a = nat] by simp
  moreover have "distinct (map int (rev [0..<unat c]))"
    by (simp add: distinct_map)
  ultimately show "wf_soa s []"
    unfolding s wf_soa_def Let_def
    by (simp add: list_all_iff in_range_def)
  show "free_list_soa s = map int (rev [0..<unat c])" "values_soa s = replicate (unat c) d"
    by (simp_all add: s)
qed

section \<open>Well-formedness along a run\<close>

lemma allocate_node_full:
  "free_list_soa s = [] \<Longrightarrow> allocate_node_soa v s = (Inl CapacityExhausted, s)"
  by (simp add: allocate_node_soa_def)

lemma exec_wf:
  assumes "wf_soa s is" and "well_used_soa c s"
  shows "\<exists>is'. wf_soa (snd (exec_soa c s)) is'"
proof (cases c)
  case (PushFront v)
  show ?thesis
  proof (cases "free_list_soa s" rule: rev_cases)
    case Nil
    then show ?thesis
      using assms(1) PushFront
      by (auto simp: push_front_soa_def emplace_front_soa_def allocate_node_full
          handle_outcome_def)
  next
    case (snoc fl idx)
    from emplace_front_wf[OF assms(1) snoc, of v] show ?thesis
      using PushFront by (auto simp: push_front_soa_def handle_outcome_def)
  qed
next
  case (PushBack v)
  show ?thesis
  proof (cases "free_list_soa s" rule: rev_cases)
    case Nil
    then show ?thesis
      using assms(1) PushBack
      by (auto simp: push_back_soa_def emplace_back_soa_def allocate_node_full
          handle_outcome_def)
  next
    case (snoc fl idx)
    from emplace_back_wf[OF assms(1) snoc, of v] show ?thesis
      using PushBack by (auto simp: push_back_soa_def handle_outcome_def)
  qed
next
  case (InsertAfter h v)
  show ?thesis
  proof (cases "ensure_valid_handle_soa h s = Inr ()")
    case False
    then have "ensure_valid_handle_soa h s = Inl InvalidHandle"
      using valid_handle_soa_cases[of h s] by simp
    then show ?thesis
      using assms(1) InsertAfter
      by (auto simp: insert_after_soa_def emplace_after_soa_def handle_outcome_def)
  next
    case True
    then have "index h \<in> set is"
      using assms InsertAfter by (simp add: in_list_wf)
    then obtain as bs where is': "is = as @ index h # bs"
      by (auto dest: split_list)
    show ?thesis
    proof (cases "free_list_soa s" rule: rev_cases)
      case Nil
      then show ?thesis
        using assms(1) InsertAfter True
        by (auto simp: insert_after_soa_def emplace_after_soa_def allocate_node_full
            handle_outcome_def)
    next
      case (snoc fl idx)
      from emplace_after_wf[OF assms(1)[unfolded is'] snoc True refl, of v] show ?thesis
        using InsertAfter by (auto simp: insert_after_soa_def handle_outcome_def)
    qed
  qed
next
  case (Erase h)
  show ?thesis
  proof (cases "ensure_valid_handle_soa h s = Inr ()")
    case False
    then have "ensure_valid_handle_soa h s = Inl InvalidHandle"
      using valid_handle_soa_cases[of h s] by simp
    then show ?thesis
      using assms(1) Erase by (auto simp: erase_soa_def unit_outcome_def)
  next
    case True
    then have "index h \<in> set is"
      using assms Erase by (simp add: in_list_wf)
    then obtain as bs where is': "is = as @ index h # bs"
      by (auto dest: split_list)
    from erase_wf[OF assms(1)[unfolded is'] True refl] show ?thesis
      using Erase by (auto simp: unit_outcome_def)
  qed
next
  case (EraseAfter h)
  show ?thesis
  proof (cases "ensure_valid_handle_soa h s = Inr ()")
    case False
    then have "ensure_valid_handle_soa h s = Inl InvalidHandle"
      using valid_handle_soa_cases[of h s] by simp
    then show ?thesis
      using assms(1) EraseAfter by (auto simp: erase_after_soa_def unit_outcome_def)
  next
    case True
    show ?thesis
    proof (cases "index h \<notin> set is \<or> index h = last is")
      case True
      from erase_after_no_successor[OF assms(1) \<open>ensure_valid_handle_soa h s = Inr ()\<close> True]
      show ?thesis using assms(1) EraseAfter by (auto simp: unit_outcome_def)
    next
      case False
      then obtain as bs where is': "is = as @ index h # bs"
        by (auto dest: split_list)
      have "bs \<noteq> []" using False is' by auto
      then obtain t cs where "bs = t # cs" by (cases bs) auto
      then have "wf_soa s (as @ index h # t # cs)" using assms(1) is' by simp
      from erase_after_wf[OF this True refl] show ?thesis
        using EraseAfter by (auto simp: unit_outcome_def)
    qed
  qed
next
  case PopFront
  show ?thesis
  proof (cases "is")
    case Nil
    then show ?thesis
      using pop_front_empty[of s] assms(1) PopFront by (auto simp: value_outcome_def)
  next
    case (Cons p bs)
    from pop_front_wf[OF assms(1)[unfolded Cons]] show ?thesis
      using PopFront by (auto simp: value_outcome_def)
  qed
next
  case ForEach
  then show ?thesis using assms(1) by auto
next
  case Size
  then show ?thesis using assms(1) by auto
qed

lemma run_wf:
  "wf_soa s is \<Longrightarrow> well_used_run_soa cs s \<Longrightarrow> \<exists>is'. wf_soa (snd (run_soa cs s)) is'"
proof (induction cs arbitrary: s "is")
  case Nil
  then show ?case by auto
next
  case (Cons c cs)
  then obtain is1 where "wf_soa (snd (exec_soa c s)) is1"
    using exec_wf[of s "is" c] by auto
  from Cons.IH[OF this] Cons.prems(2) show ?case
    by (auto split: prod.splits)
qed

lemma run_soa_capacity:
  "capacity_soa (snd (run_soa cs s)) = capacity_soa s"
proof (induction cs arbitrary: s)
  case Nil
  then show ?case by simp
next
  case (Cons c cs)
  show ?case
    using Cons.IH[of "snd (exec_soa c s)"] exec_soa_lengths[of c s]
    by (auto simp: capacity_soa_def split: prod.splits)
qed

lemma wf_size_le:
  assumes "wf_soa s is"
  shows "unat (size_soa s) \<le> capacity_soa s"
  using wf_size[OF assms] wf_lengths(5)[OF assms] by (simp add: capacity_soa_def)

text \<open>
  Claim C6, as stated, fails on the freshly constructed list of capacity 1: its size
  is 0, so \<open>0 < size\<close> does not hold.
\<close>

theorem fresh_list_size_not_positive:
  "\<not> (capacity_soa (projr (ArrayLinkedList_soa (0 :: int) 1)) = 1
      \<and> 0 < size_soa (projr (ArrayLinkedList_soa (0 :: int) 1))
      \<and> unat (size_soa (projr (ArrayLinkedList_soa (0 :: int) 1)))
          \<le> capacity_soa (projr (ArrayLinkedList_soa (0 :: int) 1)))"
  by (simp add: ArrayLinkedList_soa_def)

text \<open>
  Claim C6, as amended. At every reachable state the capacity equals the value given
  at construction. The size is 0 immediately after construction; \<open>size \<le> capacity\<close>
  holds at every state reached by calls that use their handles well (each handle
  passed to \<^verbatim>\<open>erase\<close> or \<^verbatim>\<open>insert_after\<close> is rejected or refers to a slot
  currently in the list).
\<close>

theorem size_within_capacity:
  assumes "ArrayLinkedList_soa d c = Inr s0"
  shows "capacity_soa s0 = unat c \<and> size_soa s0 = 0
       \<and> capacity_soa (snd (run_soa cs s0)) = unat c
       \<and> (unat c \<le> 2 ^ 31 \<and> well_used_run_soa cs s0 \<longrightarrow>
            unat (size_soa (snd (run_soa cs s0))) \<le> capacity_soa (snd (run_soa cs s0)))"
proof -
  have 0: "capacity_soa s0 = unat c" "size_soa s0 = 0"
    using assms by (auto simp: ArrayLinkedList_soa_def capacity_soa_def split: if_splits)
  have "unat (size_soa (snd (run_soa cs s0))) \<le> capacity_soa (snd (run_soa cs s0))"
    if b: "unat c \<le> 2 ^ 31" and w: "well_used_run_soa cs s0"
  proof -
    obtain is' where "wf_soa (snd (run_soa cs s0)) is'"
      using run_wf[OF wf_ctor(1)[OF assms b] w] by auto
    then show ?thesis by (rule wf_size_le)
  qed
  then show ?thesis
    using 0 run_soa_capacity[of cs s0] by simp
qed

theorem size_within_capacity_witness:
  "ArrayLinkedList_soa (0 :: int) 2 = Inr
      \<lparr>values_soa = [0, 0], next_soa = [- 1, - 1], prev_soa = [- 1, - 1],
       generations_soa = [0, 0], free_list_soa = [1, 0], head_soa = - 1, tail_soa = - 1,
       size_soa = 0\<rparr>
   \<and> unat (2 :: usize) \<le> 2 ^ 31
   \<and> well_used_run_soa
        [PushBack 1, PushBack 2, Erase \<lparr>index = 0, generation = 1\<rparr>,
         InsertAfter \<lparr>index = 1, generation = 1\<rparr> 3, Erase \<lparr>index = 9, generation = 1\<rparr>,
         PopFront]
        \<lparr>values_soa = [0 :: int, 0], next_soa = [- 1, - 1], prev_soa = [- 1, - 1],
         generations_soa = [0, 0], free_list_soa = [1, 0], head_soa = - 1, tail_soa = - 1,
         size_soa = 0\<rparr>
   \<and> capacity_soa (snd (run_soa
        [PushBack 1, PushBack 2, Erase \<lparr>index = 0, generation = 1\<rparr>,
         InsertAfter \<lparr>index = 1, generation = 1\<rparr> 3, Erase \<lparr>index = 9, generation = 1\<rparr>,
         PopFront]
        \<lparr>values_soa = [0 :: int, 0], next_soa = [- 1, - 1], prev_soa = [- 1, - 1],
         generations_soa = [0, 0], free_list_soa = [1, 0], head_soa = - 1, tail_soa = - 1,
         size_soa = 0\<rparr>)) = 2
   \<and> unat (size_soa (snd (run_soa
        [PushBack 1, PushBack 2, Erase \<lparr>index = 0, generation = 1\<rparr>,
         InsertAfter \<lparr>index = 1, generation = 1\<rparr> 3, Erase \<lparr>index = 9, generation = 1\<rparr>,
         PopFront]
        \<lparr>values_soa = [0 :: int, 0], next_soa = [- 1, - 1], prev_soa = [- 1, - 1],
         generations_soa = [0, 0], free_list_soa = [1, 0], head_soa = - 1, tail_soa = - 1,
         size_soa = 0\<rparr>))) \<le> 2"
proof -
  let ?s0 = "\<lparr>values_soa = [0 :: int, 0], next_soa = [- 1, - 1], prev_soa = [- 1, - 1],
       generations_soa = [0, 0], free_list_soa = [1, 0], head_soa = - 1, tail_soa = - 1,
       size_soa = 0\<rparr>"
  let ?cs = "[PushBack 1, PushBack 2, Erase \<lparr>index = 0, generation = 1\<rparr>,
         InsertAfter \<lparr>index = 1, generation = 1\<rparr> 3, Erase \<lparr>index = 9, generation = 1\<rparr>,
         PopFront]"
  have 1: "ArrayLinkedList_soa (0 :: int) 2 = Inr ?s0" by code_simp
  have 2: "unat (2 :: usize) \<le> 2 ^ 31" by simp
  have 3: "well_used_run_soa ?cs ?s0" by code_simp
  from size_within_capacity [OF 1, of ?cs] 2 3
  have 4: "capacity_soa (snd (run_soa ?cs ?s0)) = 2"
    and 5: "unat (size_soa (snd (run_soa ?cs ?s0))) \<le> 2"
    by simp_all
  show ?thesis
    by (intro conjI 1 2 3 4 5)
qed

section \<open>\<^verbatim>\<open>pop_front\<close>\<close>

lemma wf_size_zero:
  assumes "wf_soa s is"
  shows "size_soa s = 0 \<longleftrightarrow> is = []"
  using wf_size[OF assms] by (auto simp: unat_eq_0[symmetric] simp del: unat_eq_0)

lemma pop_front_fresh:
  "ArrayLinkedList_soa d c = Inr s0 \<Longrightarrow> pop_front_soa s0 = (Inl Empty, s0)"
  by (auto simp: ArrayLinkedList_soa_def pop_front_soa_def split: if_splits)

lemma pop_front_nonempty:
  assumes "wf_soa s is" and "size_soa s \<noteq> 0"
  shows "\<exists>v i rest s'. for_each_soa s = Some ((v, i) # rest)
           \<and> pop_front_soa s = (Inr v, s')
           \<and> for_each_soa s' = Some rest
           \<and> size_soa s' = size_soa s - 1
           \<and> unat (size_soa s') = unat (size_soa s) - 1
           \<and> wf_soa s' (tl is)"
proof -
  obtain p bs where is': "is = p # bs"
    using assms wf_size_zero[OF assms(1)] by (cases "is") auto
  from pop_front_wf[OF assms(1)[unfolded is']] obtain s' where
    s': "pop_front_soa s = (Inr (values_soa s ! nat p), s')" "wf_soa s' bs"
      "values_soa s' = values_soa s"
    by auto
  have "size_soa s' = size_soa s - 1"
    using wf_chains(5)[OF s'(2)] wf_chains(5)[OF assms(1)] is' by simp
  moreover have "unat (size_soa s') = unat (size_soa s) - 1"
    using wf_size[OF s'(2)] wf_size[OF assms(1)] is' by simp
  ultimately show ?thesis
    using s' for_each_wf[OF assms(1)] for_each_wf[OF s'(2)] is' by simp
qed

lemma pop_front_any_state:
  "(fst (pop_front_soa t) = Inl Empty \<longleftrightarrow> head_soa t = kNull)
   \<and> (fst (pop_front_soa t) = Inl e \<longrightarrow> e = Empty \<and> snd (pop_front_soa t) = t)
   \<and> (head_soa t \<noteq> kNull \<longrightarrow>
        fst (pop_front_soa t) = Inr (values_soa t ! nat (head_soa t))
        \<and> size_soa (snd (pop_front_soa t)) = size_soa t - 1)"
  by (auto simp: pop_front_soa_def release_node_soa_def Let_def)

lemma pop_front_reached:
  assumes "ArrayLinkedList_soa d c = Inr s0" and "unat c \<le> 2 ^ 31"
    and "well_used_run_soa cs s0" and "u = snd (run_soa cs s0)"
  shows "(fst (pop_front_soa u) = Inl Empty \<longleftrightarrow> size_soa u = 0)
       \<and> (size_soa u \<noteq> 0 \<longrightarrow>
            (\<exists>v i rest u'. for_each_soa u = Some ((v, i) # rest)
               \<and> pop_front_soa u = (Inr v, u')
               \<and> for_each_soa u' = Some rest
               \<and> size_soa u' = size_soa u - 1
               \<and> unat (size_soa u') = unat (size_soa u) - 1))"
proof -
  obtain js where w: "wf_soa u js"
    using run_wf[OF wf_ctor(1)[OF assms(1,2)] assms(3)] assms(4) by auto
  have "fst (pop_front_soa u) = Inl Empty \<longleftrightarrow> size_soa u = 0"
  proof (cases js)
    case Nil
    then show ?thesis
      using pop_front_empty[of u] w wf_size_zero[OF w] by simp
  next
    case (Cons p bs)
    then show ?thesis
      using pop_front_wf[of u p bs] w wf_size_zero[OF w] by auto
  qed
  then show ?thesis
    using pop_front_nonempty[OF w] by blast
qed

text \<open>
  Claim C8, as stated, fails after a double erase: on a list of capacity 1,
  \<^verbatim>\<open>push_back(7)\<close>, \<^verbatim>\<open>erase\<close> of its handle twice and \<^verbatim>\<open>push_back(5)\<close>
  lead to a state where \<^verbatim>\<open>size()\<close> is 0 and \<^verbatim>\<open>pop_front\<close> does not fail with
  \<open>Empty\<close> but returns 5.
\<close>

theorem pop_front_succeeds_at_size_zero:
  "session_soa (0 :: int) 1
     [PushBack 7, Erase \<lparr>index = 0, generation = 1\<rparr>, Erase \<lparr>index = 0, generation = 1\<rparr>,
      PushBack 5, Size, PopFront]
   = Inr [Handle \<lparr>index = 0, generation = 1\<rparr>, Done, Done,
          Handle \<lparr>index = 0, generation = 2\<rparr>, SizeIs 0, Popped 5]
   \<and> \<not> (fst (pop_front_soa (snd (run_soa
          [PushBack 7, Erase \<lparr>index = 0, generation = 1\<rparr>,
           Erase \<lparr>index = 0, generation = 1\<rparr>, PushBack 5]
          (projr (ArrayLinkedList_soa (0 :: int) 1))))) = Inl Empty
        \<longleftrightarrow> size_soa (snd (run_soa
          [PushBack 7, Erase \<lparr>index = 0, generation = 1\<rparr>,
           Erase \<lparr>index = 0, generation = 1\<rparr>, PushBack 5]
          (projr (ArrayLinkedList_soa (0 :: int) 1)))) = 0)"
  by code_simp

text \<open>
  Claim C8, as amended. In every state \<^verbatim>\<open>pop_front\<close> fails exactly when the list
  has no head, it fails with \<open>Empty\<close> only and then changes nothing, and otherwise it
  returns the value of the head slot and decrements \<^verbatim>\<open>size_\<close>; on a freshly
  constructed list it fails with \<open>Empty\<close>. At every state reached from construction
  by calls that use their handles well (each handle passed to \<^verbatim>\<open>erase\<close> or
  \<^verbatim>\<open>insert_after\<close> is rejected or refers to a slot currently in the list),
  \<^verbatim>\<open>pop_front\<close> fails with \<open>Empty\<close> if and only if \<^verbatim>\<open>size()\<close> is 0, and on a
  non-empty list it removes the first element that \<^verbatim>\<open>for_each\<close> visits, returns that
  element's value, leaves the other elements in their order and decreases the size
  by one.
\<close>

theorem pop_front_spec:
  "(fst (pop_front_soa t) = Inl Empty \<longleftrightarrow> head_soa t = kNull)
   \<and> (fst (pop_front_soa t) = Inl e \<longrightarrow> e = Empty \<and> snd (pop_front_soa t) = t)
   \<and> (head_soa w \<noteq> kNull \<longrightarrow>
        fst (pop_front_soa w) = Inr (values_soa w ! nat (head_soa w))
        \<and> size_soa (snd (pop_front_soa w)) = size_soa w - 1)
   \<and> (ArrayLinkedList_soa d c = Inr s0 \<longrightarrow> pop_front_soa s0 = (Inl Empty, s0))
   \<and> (ArrayLinkedList_soa d c = Inr s0 \<and> unat c \<le> 2 ^ 31 \<and> well_used_run_soa cs s0
        \<and> u = snd (run_soa cs s0) \<longrightarrow>
        (fst (pop_front_soa u) = Inl Empty \<longleftrightarrow> size_soa u = 0)
        \<and> (size_soa u \<noteq> 0 \<longrightarrow>
             (\<exists>v i rest u'. for_each_soa u = Some ((v, i) # rest)
                \<and> pop_front_soa u = (Inr v, u')
                \<and> for_each_soa u' = Some rest
                \<and> size_soa u' = size_soa u - 1
                \<and> unat (size_soa u') = unat (size_soa u) - 1)))"
  using pop_front_any_state[of t e] pop_front_any_state[of w e] pop_front_fresh[of d c s0]
    pop_front_reached[of d c s0 cs u]
  by (intro conjI impI) (blast | assumption)+

theorem pop_front_spec_witness:
  "fst (pop_front_soa \<lparr>values_soa = [0 :: int, 0], next_soa = [- 1, - 1], prev_soa = [- 1, - 1],
       generations_soa = [0, 0], free_list_soa = [1, 0], head_soa = - 1, tail_soa = - 1,
       size_soa = 0\<rparr>) = Inl Empty
   \<and> snd (pop_front_soa \<lparr>values_soa = [0 :: int, 0], next_soa = [- 1, - 1], prev_soa = [- 1, - 1],
       generations_soa = [0, 0], free_list_soa = [1, 0], head_soa = - 1, tail_soa = - 1,
       size_soa = 0\<rparr>) = \<lparr>values_soa = [0 :: int, 0], next_soa = [- 1, - 1], prev_soa = [- 1, - 1],
       generations_soa = [0, 0], free_list_soa = [1, 0], head_soa = - 1, tail_soa = - 1,
       size_soa = 0\<rparr>
   \<and> head_soa \<lparr>values_soa = [7 :: int, 8], next_soa = [1, - 1], prev_soa = [- 1, 0],
       generations_soa = [1, 1], free_list_soa = [], head_soa = 0, tail_soa = 1,
       size_soa = 2\<rparr> \<noteq> kNull
   \<and> fst (pop_front_soa \<lparr>values_soa = [7 :: int, 8], next_soa = [1, - 1], prev_soa = [- 1, 0],
       generations_soa = [1, 1], free_list_soa = [], head_soa = 0, tail_soa = 1,
       size_soa = 2\<rparr>) = Inr 7
   \<and> ArrayLinkedList_soa (0 :: int) 2 = Inr \<lparr>values_soa = [0 :: int, 0], next_soa = [- 1, - 1], prev_soa = [- 1, - 1],
       generations_soa = [0, 0], free_list_soa = [1, 0], head_soa = - 1, tail_soa = - 1,
       size_soa = 0\<rparr>
   \<and> unat (2 :: usize) \<le> 2 ^ 31
   \<and> well_used_run_soa [PushBack 7, PushBack 8] \<lparr>values_soa = [0 :: int, 0], next_soa = [- 1, - 1], prev_soa = [- 1, - 1],
       generations_soa = [0, 0], free_list_soa = [1, 0], head_soa = - 1, tail_soa = - 1,
       size_soa = 0\<rparr>
   \<and> \<lparr>values_soa = [7 :: int, 8], next_soa = [1, - 1], prev_soa = [- 1, 0],
       generations_soa = [1, 1], free_list_soa = [], head_soa = 0, tail_soa = 1,
       size_soa = 2\<rparr> = snd (run_soa [PushBack 7, PushBack 8] \<lparr>values_soa = [0 :: int, 0], next_soa = [- 1, - 1], prev_soa = [- 1, - 1],
       generations_soa = [0, 0], free_list_soa = [1, 0], head_soa = - 1, tail_soa = - 1,
       size_soa = 0\<rparr>)
   \<and> size_soa \<lparr>values_soa = [7 :: int, 8], next_soa = [1, - 1], prev_soa = [- 1, 0],
       generations_soa = [1, 1], free_list_soa = [], head_soa = 0, tail_soa = 1,
       size_soa = 2\<rparr> \<noteq> 0
   \<and> (\<exists>u'. pop_front_soa \<lparr>values_soa = [7 :: int, 8], next_soa = [1, - 1], prev_soa = [- 1, 0],
       generations_soa = [1, 1], free_list_soa = [], head_soa = 0, tail_soa = 1,
       size_soa = 2\<rparr> = (Inr 7, u')
         \<and> for_each_soa u' = Some [(8, 1)] \<and> size_soa u' = 1)"
proof -
  let ?init = "\<lparr>values_soa = [0 :: int, 0], next_soa = [- 1, - 1], prev_soa = [- 1, - 1],
       generations_soa = [0, 0], free_list_soa = [1, 0], head_soa = - 1, tail_soa = - 1,
       size_soa = 0\<rparr>"
  let ?full = "\<lparr>values_soa = [7 :: int, 8], next_soa = [1, - 1], prev_soa = [- 1, 0],
       generations_soa = [1, 1], free_list_soa = [], head_soa = 0, tail_soa = 1,
       size_soa = 2\<rparr>"
  have 1: "fst (pop_front_soa ?init) = Inl Empty"
    by (simp add: pop_front_soa_def kNull_def)
  have 2: "head_soa ?full \<noteq> kNull" by (simp add: kNull_def)
  have 3: "ArrayLinkedList_soa (0 :: int) 2 = Inr ?init" by code_simp
  have 4: "unat (2 :: usize) \<le> 2 ^ 31" by simp
  have 5: "well_used_run_soa [PushBack 7, PushBack 8] ?init" by code_simp
  have 6: "?full = snd (run_soa [PushBack 7, PushBack 8] ?init)" by code_simp
  have 7: "size_soa ?full \<noteq> 0" by simp
  have 8: "for_each_soa ?full = Some [(7, 0), (8, 1)]" by code_simp
  note spec = pop_front_spec [of ?init Empty ?full 0 2 ?init "[PushBack 7, PushBack 8]" ?full]
  have 9: "snd (pop_front_soa ?init) = ?init"
    using spec 1 by blast
  have 10: "fst (pop_front_soa ?full) = Inr 7"
    using spec 2 by simp
  from spec 3 4 5 6 7 obtain v i rest u' where
    u': "for_each_soa ?full = Some ((v, i) # rest)" "pop_front_soa ?full = (Inr v, u')"
      "for_each_soa u' = Some rest" "size_soa u' = size_soa ?full - 1"
    by blast
  from u'(1) 8 have "v = 7" "rest = [(8, 1)]" by simp_all
  then have 11: "\<exists>u'. pop_front_soa ?full = (Inr 7, u')
         \<and> for_each_soa u' = Some [(8, 1)] \<and> size_soa u' = 1"
    using u' by auto
  show ?thesis
    by (intro conjI 1 9 2 10 3 4 5 6 7 11)
qed


section \<open>\<^verbatim>\<open>erase_after\<close>\<close>

lemma erase_after_invalid:
  "ensure_valid_handle_soa h s \<noteq> Inr () \<Longrightarrow> erase_after_soa h s = (Inl InvalidHandle, s)"
  using valid_handle_soa_cases[of h s] by (auto simp: erase_after_soa_def)

lemma erase_after_tail:
  "ensure_valid_handle_soa h s = Inr () \<Longrightarrow> next_soa s ! nat (index h) = kNull \<Longrightarrow>
     erase_after_soa h s = (Inl NoSuccessor, s)"
  by (simp add: erase_after_soa_def Let_def)

lemma erase_after_aos_errors:
  "(ensure_valid_handle_aos h a \<noteq> Inr () \<longrightarrow> erase_after_aos h a = (Inl InvalidHandle, a))
   \<and> (ensure_valid_handle_aos h a = Inr () \<and> node_next (nodes_aos a ! nat (index h)) = kNull
        \<longrightarrow> erase_after_aos h a = (Inl NoSuccessor, a))"
  by (auto simp: erase_after_aos_def ensure_valid_handle_aos_def Let_def)

lemma wf_no_next:
  assumes "wf_soa s is" and "ensure_valid_handle_soa h s = Inr ()"
  shows "next_soa s ! nat (index h) = kNull \<longleftrightarrow> index h \<notin> set is \<or> index h = last is"
proof
  assume "index h \<notin> set is \<or> index h = last is"
  from erase_after_no_successor[OF assms this] assms(2)
  show "next_soa s ! nat (index h) = kNull"
    by (auto simp: erase_after_soa_def Let_def split: if_splits)
next
  assume n: "next_soa s ! nat (index h) = kNull"
  show "index h \<notin> set is \<or> index h = last is"
  proof (rule ccontr)
    assume "\<not> (index h \<notin> set is \<or> index h = last is)"
    then obtain as bs where is': "is = as @ index h # bs" and "index h \<noteq> last is"
      by (auto dest: split_list)
    then have "bs \<noteq> []" by auto
    then have "next_soa s ! nat (index h) = hd bs" "hd bs \<in> set is"
      using wf_links(1)[OF assms(1)[unfolded is']] is' by auto
    then show False
      using n wf_members(1)[OF assms(1), of "hd bs"] by simp
  qed
qed

lemma erase_after_removes:
  assumes "wf_soa s is" and "ensure_valid_handle_soa h s = Inr ()"
    and "next_soa s ! nat (index h) \<noteq> kNull"
  shows "\<exists>as t cs s'. is = as @ index h # t # cs \<and> t = next_soa s ! nat (index h)
           \<and> erase_after_soa h s = (Inr (), s')
           \<and> wf_soa s' (as @ index h # cs)
           \<and> free_list_soa s' = free_list_soa s @ [t]
           \<and> values_soa s' = values_soa s
           \<and> generations_soa s' = generations_soa s
           \<and> size_soa s' = size_soa s - 1"
proof -
  have "\<not> (index h \<notin> set is \<or> index h = last is)"
    using wf_no_next[OF assms(1,2)] assms(3) by simp
  then obtain as bs where is': "is = as @ index h # bs" and "index h \<noteq> last is"
    by (auto dest: split_list)
  then obtain t cs where bs: "bs = t # cs" by (cases bs) auto
  have w: "wf_soa s (as @ index h # t # cs)" using assms(1) is' bs by simp
  have t: "t = next_soa s ! nat (index h)"
    using wf_links(1)[OF w] by simp
  from erase_after_wf[OF w assms(2) refl] obtain s' where
    s': "erase_after_soa h s = (Inr (), s')" "wf_soa s' (as @ index h # cs)"
      "values_soa s' = values_soa s" "generations_soa s' = generations_soa s"
      "free_list_soa s' = free_list_soa s @ [t]"
    by auto
  have "size_soa s' = size_soa s - 1"
    using wf_chains(5)[OF s'(2)] wf_chains(5)[OF w] by simp
  then show ?thesis
    using is' bs t s' by blast
qed

lemma erase_after_reached:
  assumes "ArrayLinkedList_soa d c = Inr s0" and "unat c \<le> 2 ^ 31"
    and "well_used_run_soa cs s0" and "u = snd (run_soa cs s0)"
    and "ensure_valid_handle_soa k u = Inr ()"
  shows "\<exists>is vis. wf_soa u is \<and> for_each_soa u = Some vis \<and> map snd vis = is
       \<and> (next_soa u ! nat (index k) = kNull \<longleftrightarrow> index k \<notin> set is \<or> index k = last is)
       \<and> (next_soa u ! nat (index k) \<noteq> kNull \<longrightarrow>
            (\<exists>as t bs u'. is = as @ index k # t # bs \<and> t = next_soa u ! nat (index k)
               \<and> erase_after_soa k u = (Inr (), u')
               \<and> wf_soa u' (as @ index k # bs)
               \<and> for_each_soa u' = Some (filter (\<lambda>p. snd p \<noteq> t) vis)
               \<and> free_list_soa u' = free_list_soa u @ [t]
               \<and> values_soa u' = values_soa u
               \<and> generations_soa u' = generations_soa u
               \<and> size_soa u' = size_soa u - 1))"
proof -
  obtain js where w: "wf_soa u js"
    using run_wf[OF wf_ctor(1)[OF assms(1,2)] assms(3)] assms(4) by auto
  let ?f = "\<lambda>i. (values_soa u ! nat i, i)"
  have fe: "for_each_soa u = Some (map ?f js)"
    using for_each_wf[OF w] .
  have ms: "map snd (map ?f js) = js"
    by (simp add: comp_def)
  have rm: "\<exists>as t bs u'. js = as @ index k # t # bs \<and> t = next_soa u ! nat (index k)
               \<and> erase_after_soa k u = (Inr (), u')
               \<and> wf_soa u' (as @ index k # bs)
               \<and> for_each_soa u' = Some (filter (\<lambda>p. snd p \<noteq> t) (map ?f js))
               \<and> free_list_soa u' = free_list_soa u @ [t]
               \<and> values_soa u' = values_soa u
               \<and> generations_soa u' = generations_soa u
               \<and> size_soa u' = size_soa u - 1"
    if n: "next_soa u ! nat (index k) \<noteq> kNull"
  proof -
    from erase_after_removes[OF w assms(5) n] obtain as t bs u' where
      r: "js = as @ index k # t # bs" "t = next_soa u ! nat (index k)"
        "erase_after_soa k u = (Inr (), u')" "wf_soa u' (as @ index k # bs)"
        "free_list_soa u' = free_list_soa u @ [t]" "values_soa u' = values_soa u"
        "generations_soa u' = generations_soa u" "size_soa u' = size_soa u - 1"
      by blast
    have d: "t \<notin> set as" "t \<noteq> index k" "t \<notin> set bs"
      using wf_members(3)[OF w] r(1) by auto
    have fa: "filter (\<lambda>x. x \<noteq> t) as = as" and fb: "filter (\<lambda>x. x \<noteq> t) bs = bs"
      using d by (auto simp add: filter_id_conv)
    have "filter (\<lambda>p. snd p \<noteq> t) (map ?f js) = map ?f (as @ index k # bs)"
      using d(2) r(1) fa fb by (simp add: filter_map comp_def)
    moreover have "for_each_soa u' = Some (map ?f (as @ index k # bs))"
      using for_each_wf[OF r(4)] r(6) by simp
    ultimately have fe': "for_each_soa u' = Some (filter (\<lambda>p. snd p \<noteq> t) (map ?f js))"
      by simp
    show ?thesis
      by (rule exI[of _ as], rule exI[of _ t], rule exI[of _ bs], rule exI[of _ u'])
        (intro conjI r fe')
  qed
  show ?thesis
    using w fe ms wf_no_next[OF w assms(5)] rm by blast
qed

text \<open>
  Claim C9, as stated, fails after an insertion behind an erased handle: on a list of
  capacity 2, \<^verbatim>\<open>push_back(1)\<close>, \<^verbatim>\<open>push_back(2)\<close>, \<^verbatim>\<open>erase\<close> of the second handle
  and \<^verbatim>\<open>insert_after\<close> of 9 behind that same handle return the handle of slot 1
  with generation 2, whose slot is its own next element. \<^verbatim>\<open>erase_after\<close> of this
  handle returns normally, yet the chain that \<^verbatim>\<open>for_each\<close> visits is the same
  before and after: no successor is removed from it, and the slot released is the
  one the handle itself names, on which \<^verbatim>\<open>tail_\<close> still points.
\<close>

theorem erase_after_releases_anchor:
  "session_soa (0 :: int) 2
     [PushBack 1, PushBack 2, Erase \<lparr>index = 1, generation = 1\<rparr>,
      InsertAfter \<lparr>index = 1, generation = 1\<rparr> 9, ForEach,
      EraseAfter \<lparr>index = 1, generation = 2\<rparr>, ForEach, Size]
   = Inr [Handle \<lparr>index = 0, generation = 1\<rparr>, Handle \<lparr>index = 1, generation = 1\<rparr>, Done,
          Handle \<lparr>index = 1, generation = 2\<rparr>, Visited (Some [(1, 0)]),
          Done, Visited (Some [(1, 0)]), SizeIs 1]
   \<and> snd (run_soa [PushBack 1, PushBack 2, Erase \<lparr>index = 1, generation = 1\<rparr>,
      InsertAfter \<lparr>index = 1, generation = 1\<rparr> 9]
        (projr (ArrayLinkedList_soa (0 :: int) 2)))
      = \<lparr>values_soa = [1 :: int, 9], next_soa = [- 1, 1], prev_soa = [- 1, 1],
       generations_soa = [1, 2], free_list_soa = [], head_soa = 0, tail_soa = 1,
       size_soa = 2\<rparr>
   \<and> ensure_valid_handle_soa \<lparr>index = 1, generation = 2\<rparr>
        \<lparr>values_soa = [1 :: int, 9], next_soa = [- 1, 1], prev_soa = [- 1, 1],
       generations_soa = [1, 2], free_list_soa = [], head_soa = 0, tail_soa = 1,
       size_soa = 2\<rparr> = Inr ()
   \<and> next_soa \<lparr>values_soa = [1 :: int, 9], next_soa = [- 1, 1], prev_soa = [- 1, 1],
       generations_soa = [1, 2], free_list_soa = [], head_soa = 0, tail_soa = 1,
       size_soa = 2\<rparr> ! nat (index \<lparr>index = 1, generation = 2\<rparr>) = 1
   \<and> erase_after_soa \<lparr>index = 1, generation = 2\<rparr>
        \<lparr>values_soa = [1 :: int, 9], next_soa = [- 1, 1], prev_soa = [- 1, 1],
       generations_soa = [1, 2], free_list_soa = [], head_soa = 0, tail_soa = 1,
       size_soa = 2\<rparr>
      = (Inr (), \<lparr>values_soa = [1 :: int, 9], next_soa = [- 1, - 1], prev_soa = [- 1, - 1],
       generations_soa = [1, 2], free_list_soa = [1], head_soa = 0, tail_soa = 1,
       size_soa = 1\<rparr>)
   \<and> for_each_soa \<lparr>values_soa = [1 :: int, 9], next_soa = [- 1, 1], prev_soa = [- 1, 1],
       generations_soa = [1, 2], free_list_soa = [], head_soa = 0, tail_soa = 1,
       size_soa = 2\<rparr> = Some [(1, 0)]
   \<and> for_each_soa \<lparr>values_soa = [1 :: int, 9], next_soa = [- 1, - 1], prev_soa = [- 1, - 1],
       generations_soa = [1, 2], free_list_soa = [1], head_soa = 0, tail_soa = 1,
       size_soa = 1\<rparr> = Some [(1, 0)]"
  by code_simp

text \<open>
  Claim C9, as amended. In every state of both layouts \<^verbatim>\<open>erase_after(handle)\<close>
  fails with \<open>InvalidHandle\<close> whenever the handle does not validate (index out of
  range or generation different from the slot's), and this check comes first; it
  fails with \<open>NoSuccessor\<close> whenever the handle validates and its slot has no next
  element; both failures leave the object unchanged. At every state reached from
  construction by calls that use their handles well (each handle passed to
  \<^verbatim>\<open>erase\<close> or \<^verbatim>\<open>insert_after\<close> is rejected or refers to a slot currently in the
  list), the slot of a validated handle has no next element exactly when it is the
  tail or is not in the list; otherwise \<^verbatim>\<open>erase_after\<close> returns normally, removes
  exactly the successor slot from the chain that \<^verbatim>\<open>for_each\<close> visits, keeps the
  other elements in their order, releases that slot onto the free-list, keeps all
  values and generations and decreases the size by one. The row layout computes
  the same as the column layout.
\<close>

theorem erase_after_spec:
  "(ensure_valid_handle_soa h s = Inr () \<longleftrightarrow>
      0 \<le> index h \<and> nat (index h) < capacity_soa s
      \<and> generations_soa s ! nat (index h) = generation h)
   \<and> (ensure_valid_handle_soa h s \<noteq> Inr () \<longrightarrow> erase_after_soa h s = (Inl InvalidHandle, s))
   \<and> (ensure_valid_handle_soa h' t = Inr () \<and> next_soa t ! nat (index h') = kNull \<longrightarrow>
        erase_after_soa h' t = (Inl NoSuccessor, t))
   \<and> (ArrayLinkedList_soa d c = Inr s0 \<and> unat c \<le> 2 ^ 31 \<and> well_used_run_soa cs s0
        \<and> u = snd (run_soa cs s0) \<and> ensure_valid_handle_soa k u = Inr () \<longrightarrow>
        (\<exists>is vis. wf_soa u is \<and> for_each_soa u = Some vis \<and> map snd vis = is
           \<and> (next_soa u ! nat (index k) = kNull \<longleftrightarrow> index k \<notin> set is \<or> index k = last is)
           \<and> (next_soa u ! nat (index k) \<noteq> kNull \<longrightarrow>
                (\<exists>as nx bs u'. is = as @ index k # nx # bs
                   \<and> nx = next_soa u ! nat (index k)
                   \<and> erase_after_soa k u = (Inr (), u')
                   \<and> wf_soa u' (as @ index k # bs)
                   \<and> for_each_soa u' = Some (filter (\<lambda>p. snd p \<noteq> nx) vis)
                   \<and> free_list_soa u' = free_list_soa u @ [nx]
                   \<and> values_soa u' = values_soa u
                   \<and> generations_soa u' = generations_soa u
                   \<and> size_soa u' = size_soa u - 1))))
   \<and> (ensure_valid_handle_aos h a \<noteq> Inr () \<longrightarrow> erase_after_aos h a = (Inl InvalidHandle, a))
   \<and> (ensure_valid_handle_aos h' b = Inr () \<and> node_next (nodes_aos b ! nat (index h')) = kNull
        \<longrightarrow> erase_after_aos h' b = (Inl NoSuccessor, b))
   \<and> (mem_safe_soa (to_soa a') \<longrightarrow>
        map_prod id to_soa (erase_after_aos k a') = erase_after_soa k (to_soa a'))"
proof -
  have 1: "ensure_valid_handle_soa h s = Inr () \<longleftrightarrow>
      0 \<le> index h \<and> nat (index h) < capacity_soa s
      \<and> generations_soa s ! nat (index h) = generation h"
    by (auto simp: valid_handle_soa_iff in_range_def capacity_soa_def)
  have 2: "(ArrayLinkedList_soa d c = Inr s0 \<and> unat c \<le> 2 ^ 31 \<and> well_used_run_soa cs s0
        \<and> u = snd (run_soa cs s0) \<and> ensure_valid_handle_soa k u = Inr () \<longrightarrow>
        (\<exists>is vis. wf_soa u is \<and> for_each_soa u = Some vis \<and> map snd vis = is
           \<and> (next_soa u ! nat (index k) = kNull \<longleftrightarrow> index k \<notin> set is \<or> index k = last is)
           \<and> (next_soa u ! nat (index k) \<noteq> kNull \<longrightarrow>
                (\<exists>as nx bs u'. is = as @ index k # nx # bs
                   \<and> nx = next_soa u ! nat (index k)
                   \<and> erase_after_soa k u = (Inr (), u')
                   \<and> wf_soa u' (as @ index k # bs)
                   \<and> for_each_soa u' = Some (filter (\<lambda>p. snd p \<noteq> nx) vis)
                   \<and> free_list_soa u' = free_list_soa u @ [nx]
                   \<and> values_soa u' = values_soa u
                   \<and> generations_soa u' = generations_soa u
                   \<and> size_soa u' = size_soa u - 1))))"
    using erase_after_reached[of d c s0 cs u k] by blast
  show ?thesis
    using 1 2 erase_after_invalid[of h s] erase_after_tail[of h' t]
      erase_after_aos_errors[of h a] erase_after_aos_errors[of h' b]
      erase_after_sim[of a' k]
    by (intro conjI impI) (blast | assumption)+
qed

theorem erase_after_spec_witness:
  "ensure_valid_handle_soa \<lparr>index = 5, generation = 1\<rparr> \<lparr>values_soa = [7 :: int, 8, 0], next_soa = [1, - 1, - 1], prev_soa = [- 1, 0, - 1],
       generations_soa = [1, 1, 0], free_list_soa = [2], head_soa = 0, tail_soa = 1,
       size_soa = 2\<rparr> \<noteq> Inr ()
   \<and> erase_after_soa \<lparr>index = 5, generation = 1\<rparr> \<lparr>values_soa = [7 :: int, 8, 0], next_soa = [1, - 1, - 1], prev_soa = [- 1, 0, - 1],
       generations_soa = [1, 1, 0], free_list_soa = [2], head_soa = 0, tail_soa = 1,
       size_soa = 2\<rparr> = (Inl InvalidHandle, \<lparr>values_soa = [7 :: int, 8, 0], next_soa = [1, - 1, - 1], prev_soa = [- 1, 0, - 1],
       generations_soa = [1, 1, 0], free_list_soa = [2], head_soa = 0, tail_soa = 1,
       size_soa = 2\<rparr>)
   \<and> ensure_valid_handle_soa \<lparr>index = 1, generation = 1\<rparr> \<lparr>values_soa = [7 :: int, 8, 0], next_soa = [1, - 1, - 1], prev_soa = [- 1, 0, - 1],
       generations_soa = [1, 1, 0], free_list_soa = [2], head_soa = 0, tail_soa = 1,
       size_soa = 2\<rparr> = Inr ()
   \<and> next_soa \<lparr>values_soa = [7 :: int, 8, 0], next_soa = [1, - 1, - 1], prev_soa = [- 1, 0, - 1],
       generations_soa = [1, 1, 0], free_list_soa = [2], head_soa = 0, tail_soa = 1,
       size_soa = 2\<rparr> ! nat (index \<lparr>index = 1, generation = 1\<rparr>) = kNull
   \<and> erase_after_soa \<lparr>index = 1, generation = 1\<rparr> \<lparr>values_soa = [7 :: int, 8, 0], next_soa = [1, - 1, - 1], prev_soa = [- 1, 0, - 1],
       generations_soa = [1, 1, 0], free_list_soa = [2], head_soa = 0, tail_soa = 1,
       size_soa = 2\<rparr> = (Inl NoSuccessor, \<lparr>values_soa = [7 :: int, 8, 0], next_soa = [1, - 1, - 1], prev_soa = [- 1, 0, - 1],
       generations_soa = [1, 1, 0], free_list_soa = [2], head_soa = 0, tail_soa = 1,
       size_soa = 2\<rparr>)
   \<and> ArrayLinkedList_soa (0 :: int) 3 = Inr \<lparr>values_soa = [0 :: int, 0, 0], next_soa = [- 1, - 1, - 1],
       prev_soa = [- 1, - 1, - 1], generations_soa = [0, 0, 0], free_list_soa = [2, 1, 0],
       head_soa = - 1, tail_soa = - 1, size_soa = 0\<rparr>
   \<and> unat (3 :: usize) \<le> 2 ^ 31
   \<and> well_used_run_soa [PushBack 7, PushBack 8] \<lparr>values_soa = [0 :: int, 0, 0], next_soa = [- 1, - 1, - 1],
       prev_soa = [- 1, - 1, - 1], generations_soa = [0, 0, 0], free_list_soa = [2, 1, 0],
       head_soa = - 1, tail_soa = - 1, size_soa = 0\<rparr>
   \<and> \<lparr>values_soa = [7 :: int, 8, 0], next_soa = [1, - 1, - 1], prev_soa = [- 1, 0, - 1],
       generations_soa = [1, 1, 0], free_list_soa = [2], head_soa = 0, tail_soa = 1,
       size_soa = 2\<rparr> = snd (run_soa [PushBack 7, PushBack 8] \<lparr>values_soa = [0 :: int, 0, 0], next_soa = [- 1, - 1, - 1],
       prev_soa = [- 1, - 1, - 1], generations_soa = [0, 0, 0], free_list_soa = [2, 1, 0],
       head_soa = - 1, tail_soa = - 1, size_soa = 0\<rparr>)
   \<and> ensure_valid_handle_soa \<lparr>index = 0, generation = 1\<rparr> \<lparr>values_soa = [7 :: int, 8, 0], next_soa = [1, - 1, - 1], prev_soa = [- 1, 0, - 1],
       generations_soa = [1, 1, 0], free_list_soa = [2], head_soa = 0, tail_soa = 1,
       size_soa = 2\<rparr> = Inr ()
   \<and> next_soa \<lparr>values_soa = [7 :: int, 8, 0], next_soa = [1, - 1, - 1], prev_soa = [- 1, 0, - 1],
       generations_soa = [1, 1, 0], free_list_soa = [2], head_soa = 0, tail_soa = 1,
       size_soa = 2\<rparr> ! nat (index \<lparr>index = 0, generation = 1\<rparr>) \<noteq> kNull
   \<and> for_each_soa \<lparr>values_soa = [7 :: int, 8, 0], next_soa = [1, - 1, - 1], prev_soa = [- 1, 0, - 1],
       generations_soa = [1, 1, 0], free_list_soa = [2], head_soa = 0, tail_soa = 1,
       size_soa = 2\<rparr> = Some [(7, 0), (8, 1)]
   \<and> (\<exists>u'. erase_after_soa \<lparr>index = 0, generation = 1\<rparr> \<lparr>values_soa = [7 :: int, 8, 0], next_soa = [1, - 1, - 1], prev_soa = [- 1, 0, - 1],
       generations_soa = [1, 1, 0], free_list_soa = [2], head_soa = 0, tail_soa = 1,
       size_soa = 2\<rparr> = (Inr (), u')
         \<and> for_each_soa u' = Some [(7, 0)]
         \<and> free_list_soa u' = [2, 1]
         \<and> size_soa u' = 1)
   \<and> ensure_valid_handle_aos \<lparr>index = 5, generation = 1\<rparr> \<lparr>nodes_aos =
        [\<lparr>node_value = 7 :: int, node_next = 1, node_prev = - 1, node_generation = 1\<rparr>,
         \<lparr>node_value = 8, node_next = - 1, node_prev = 0, node_generation = 1\<rparr>,
         \<lparr>node_value = 0, node_next = - 1, node_prev = - 1, node_generation = 0\<rparr>],
       free_list_aos = [2], head_aos = 0, tail_aos = 1, size_aos = 2\<rparr> \<noteq> Inr ()
   \<and> erase_after_aos \<lparr>index = 5, generation = 1\<rparr> \<lparr>nodes_aos =
        [\<lparr>node_value = 7 :: int, node_next = 1, node_prev = - 1, node_generation = 1\<rparr>,
         \<lparr>node_value = 8, node_next = - 1, node_prev = 0, node_generation = 1\<rparr>,
         \<lparr>node_value = 0, node_next = - 1, node_prev = - 1, node_generation = 0\<rparr>],
       free_list_aos = [2], head_aos = 0, tail_aos = 1, size_aos = 2\<rparr> = (Inl InvalidHandle, \<lparr>nodes_aos =
        [\<lparr>node_value = 7 :: int, node_next = 1, node_prev = - 1, node_generation = 1\<rparr>,
         \<lparr>node_value = 8, node_next = - 1, node_prev = 0, node_generation = 1\<rparr>,
         \<lparr>node_value = 0, node_next = - 1, node_prev = - 1, node_generation = 0\<rparr>],
       free_list_aos = [2], head_aos = 0, tail_aos = 1, size_aos = 2\<rparr>)
   \<and> ensure_valid_handle_aos \<lparr>index = 1, generation = 1\<rparr> \<lparr>nodes_aos =
        [\<lparr>node_value = 7 :: int, node_next = 1, node_prev = - 1, node_generation = 1\<rparr>,
         \<lparr>node_value = 8, node_next = - 1, node_prev = 0, node_generation = 1\<rparr>,
         \<lparr>node_value = 0, node_next = - 1, node_prev = - 1, node_generation = 0\<rparr>],
       free_list_aos = [2], head_aos = 0, tail_aos = 1, size_aos = 2\<rparr> = Inr ()
   \<and> node_next (nodes_aos \<lparr>nodes_aos =
        [\<lparr>node_value = 7 :: int, node_next = 1, node_prev = - 1, node_generation = 1\<rparr>,
         \<lparr>node_value = 8, node_next = - 1, node_prev = 0, node_generation = 1\<rparr>,
         \<lparr>node_value = 0, node_next = - 1, node_prev = - 1, node_generation = 0\<rparr>],
       free_list_aos = [2], head_aos = 0, tail_aos = 1, size_aos = 2\<rparr> ! nat (index \<lparr>index = 1, generation = 1\<rparr>)) = kNull
   \<and> erase_after_aos \<lparr>index = 1, generation = 1\<rparr> \<lparr>nodes_aos =
        [\<lparr>node_value = 7 :: int, node_next = 1, node_prev = - 1, node_generation = 1\<rparr>,
         \<lparr>node_value = 8, node_next = - 1, node_prev = 0, node_generation = 1\<rparr>,
         \<lparr>node_value = 0, node_next = - 1, node_prev = - 1, node_generation = 0\<rparr>],
       free_list_aos = [2], head_aos = 0, tail_aos = 1, size_aos = 2\<rparr> = (Inl NoSuccessor, \<lparr>nodes_aos =
        [\<lparr>node_value = 7 :: int, node_next = 1, node_prev = - 1, node_generation = 1\<rparr>,
         \<lparr>node_value = 8, node_next = - 1, node_prev = 0, node_generation = 1\<rparr>,
         \<lparr>node_value = 0, node_next = - 1, node_prev = - 1, node_generation = 0\<rparr>],
       free_list_aos = [2], head_aos = 0, tail_aos = 1, size_aos = 2\<rparr>)
   \<and> mem_safe_soa (to_soa \<lparr>nodes_aos =
        [\<lparr>node_value = 7 :: int, node_next = 1, node_prev = - 1, node_generation = 1\<rparr>,
         \<lparr>node_value = 8, node_next = - 1, node_prev = 0, node_generation = 1\<rparr>,
         \<lparr>node_value = 0, node_next = - 1, node_prev = - 1, node_generation = 0\<rparr>],
       free_list_aos = [2], head_aos = 0, tail_aos = 1, size_aos = 2\<rparr>)
   \<and> map_prod id to_soa (erase_after_aos \<lparr>index = 0, generation = 1\<rparr> \<lparr>nodes_aos =
        [\<lparr>node_value = 7 :: int, node_next = 1, node_prev = - 1, node_generation = 1\<rparr>,
         \<lparr>node_value = 8, node_next = - 1, node_prev = 0, node_generation = 1\<rparr>,
         \<lparr>node_value = 0, node_next = - 1, node_prev = - 1, node_generation = 0\<rparr>],
       free_list_aos = [2], head_aos = 0, tail_aos = 1, size_aos = 2\<rparr>) = erase_after_soa \<lparr>index = 0, generation = 1\<rparr> (to_soa \<lparr>nodes_aos =
        [\<lparr>node_value = 7 :: int, node_next = 1, node_prev = - 1, node_generation = 1\<rparr>,
         \<lparr>node_value = 8, node_next = - 1, node_prev = 0, node_generation = 1\<rparr>,
         \<lparr>node_value = 0, node_next = - 1, node_prev = - 1, node_generation = 0\<rparr>],
       free_list_aos = [2], head_aos = 0, tail_aos = 1, size_aos = 2\<rparr>)"
proof -
  let ?U = "\<lparr>values_soa = [7 :: int, 8, 0], next_soa = [1, - 1, - 1], prev_soa = [- 1, 0, - 1],
       generations_soa = [1, 1, 0], free_list_soa = [2], head_soa = 0, tail_soa = 1,
       size_soa = 2\<rparr>"
  let ?I = "\<lparr>values_soa = [0 :: int, 0, 0], next_soa = [- 1, - 1, - 1],
       prev_soa = [- 1, - 1, - 1], generations_soa = [0, 0, 0], free_list_soa = [2, 1, 0],
       head_soa = - 1, tail_soa = - 1, size_soa = 0\<rparr>"
  let ?A = "\<lparr>nodes_aos =
        [\<lparr>node_value = 7 :: int, node_next = 1, node_prev = - 1, node_generation = 1\<rparr>,
         \<lparr>node_value = 8, node_next = - 1, node_prev = 0, node_generation = 1\<rparr>,
         \<lparr>node_value = 0, node_next = - 1, node_prev = - 1, node_generation = 0\<rparr>],
       free_list_aos = [2], head_aos = 0, tail_aos = 1, size_aos = 2\<rparr>"
  have 1: "ensure_valid_handle_soa \<lparr>index = 5, generation = 1\<rparr> ?U \<noteq> Inr ()"
    by (simp add: ensure_valid_handle_soa_def)
  have 2: "ensure_valid_handle_soa \<lparr>index = 1, generation = 1\<rparr> ?U = Inr ()"
    by (simp add: ensure_valid_handle_soa_def)
  have 3: "next_soa ?U ! nat (index \<lparr>index = 1, generation = 1\<rparr>) = kNull"
    by (simp add: kNull_def)
  have c1: "ArrayLinkedList_soa (0 :: int) 3 = Inr ?I" by code_simp
  have c2: "unat (3 :: usize) \<le> 2 ^ 31" by simp
  have c3: "well_used_run_soa [PushBack 7, PushBack 8] ?I" by code_simp
  have c4: "?U = snd (run_soa [PushBack 7, PushBack 8] ?I)" by code_simp
  have 5: "ensure_valid_handle_soa \<lparr>index = 0, generation = 1\<rparr> ?U = Inr ()"
    by (simp add: ensure_valid_handle_soa_def)
  have 6: "next_soa ?U ! nat (index \<lparr>index = 0, generation = 1\<rparr>) \<noteq> kNull"
    by (simp add: kNull_def)
  have fe: "for_each_soa ?U = Some [(7, 0), (8, 1)]" by code_simp
  have 7: "ensure_valid_handle_aos \<lparr>index = 5, generation = 1\<rparr> ?A \<noteq> Inr ()"
    by (simp add: ensure_valid_handle_aos_def)
  have 8: "ensure_valid_handle_aos \<lparr>index = 1, generation = 1\<rparr> ?A = Inr ()"
    by (simp add: ensure_valid_handle_aos_def)
  have 9: "node_next (nodes_aos ?A ! nat (index \<lparr>index = 1, generation = 1\<rparr>)) = kNull"
    by (simp add: kNull_def)
  have 10: "mem_safe_soa (to_soa ?A)"
    by (simp add: mem_safe_soa_def to_soa_def link_ok_def in_range_def kNull_def)
  note spec = erase_after_spec [of "\<lparr>index = 5, generation = 1\<rparr>" ?U "\<lparr>index = 1, generation = 1\<rparr>" ?U 0 3 ?I "[PushBack 7, PushBack 8]" ?U
      "\<lparr>index = 0, generation = 1\<rparr>" ?A ?A ?A]
  have 11: "erase_after_soa \<lparr>index = 5, generation = 1\<rparr> ?U = (Inl InvalidHandle, ?U)"
    using spec 1 by blast
  have 12: "erase_after_soa \<lparr>index = 1, generation = 1\<rparr> ?U = (Inl NoSuccessor, ?U)"
    using spec 2 3 by blast
  from spec c1 c2 c3 c4 5 obtain js vis where
    r: "for_each_soa ?U = Some vis"
      "next_soa ?U ! nat (index \<lparr>index = 0, generation = 1\<rparr>) \<noteq> kNull \<longrightarrow>
         (\<exists>as nx bs u'. js = as @ index \<lparr>index = 0, generation = 1\<rparr> # nx # bs
            \<and> nx = next_soa ?U ! nat (index \<lparr>index = 0, generation = 1\<rparr>)
            \<and> erase_after_soa \<lparr>index = 0, generation = 1\<rparr> ?U = (Inr (), u')
            \<and> wf_soa u' (as @ index \<lparr>index = 0, generation = 1\<rparr> # bs)
            \<and> for_each_soa u' = Some (filter (\<lambda>p. snd p \<noteq> nx) vis)
            \<and> free_list_soa u' = free_list_soa ?U @ [nx]
            \<and> values_soa u' = values_soa ?U
            \<and> generations_soa u' = generations_soa ?U
            \<and> size_soa u' = size_soa ?U - 1)"
    by blast
  from r(2) 6 obtain nx u' where
    u': "nx = next_soa ?U ! nat (index \<lparr>index = 0, generation = 1\<rparr>)"
      "erase_after_soa \<lparr>index = 0, generation = 1\<rparr> ?U = (Inr (), u')"
      "for_each_soa u' = Some (filter (\<lambda>p. snd p \<noteq> nx) vis)"
      "free_list_soa u' = free_list_soa ?U @ [nx]" "size_soa u' = size_soa ?U - 1"
    by blast
  from r(1) fe have vis: "vis = [(7, 0), (8, 1)]" by simp
  from u'(1) have nx: "nx = 1" by simp
  have 13: "\<exists>u'. erase_after_soa \<lparr>index = 0, generation = 1\<rparr> ?U = (Inr (), u')
         \<and> for_each_soa u' = Some [(7, 0)]
         \<and> free_list_soa u' = [2, 1]
         \<and> size_soa u' = 1"
    using u'(2,3,4,5) vis nx by simp
  have 14: "erase_after_aos \<lparr>index = 5, generation = 1\<rparr> ?A = (Inl InvalidHandle, ?A)"
    using spec 7 by blast
  have 15: "erase_after_aos \<lparr>index = 1, generation = 1\<rparr> ?A = (Inl NoSuccessor, ?A)"
    using spec 8 9 by blast
  have 16: "map_prod id to_soa (erase_after_aos \<lparr>index = 0, generation = 1\<rparr> ?A) = erase_after_soa \<lparr>index = 0, generation = 1\<rparr> (to_soa ?A)"
    using spec 10 by blast
  show ?thesis
    by (intro conjI 1 11 2 3 12 c1 c2 c3 c4 5 6 fe 13 7 14 8 9 15 10 16)
qed


section \<open>Iteration order after pushes\<close>

lemma run_soa_snoc:
  "snd (run_soa (cs @ [c]) s) = snd (exec_soa c (snd (run_soa cs s)))"
  by (simp add: run_soa_append split: prod.splits)

lemma rev_upt_last: "k < n \<Longrightarrow> map int (rev [k..<n]) = map int (rev [Suc k..<n]) @ [int k]"
  by (simp add: upt_conv_Cons)

lemma map_nth_take: "k \<le> length xs \<Longrightarrow> map (\<lambda>i. xs ! i) [0..<k] = take k xs"
  by (simp add: list_eq_iff_nth_eq)

lemma push_back_run:
  assumes "ArrayLinkedList_soa d c = Inr s0" and "unat c \<le> 2 ^ 31"
  shows "wf_soa (snd (run_soa (map PushBack vs) s0)) (map int [0..<min (length vs) (unat c)])
       \<and> free_list_soa (snd (run_soa (map PushBack vs) s0))
           = map int (rev [min (length vs) (unat c)..<unat c])
       \<and> take (min (length vs) (unat c)) (values_soa (snd (run_soa (map PushBack vs) s0)))
           = take (unat c) vs
       \<and> length (values_soa (snd (run_soa (map PushBack vs) s0))) = unat c"
proof (induction vs rule: rev_induct)
  case Nil
  then show ?case using wf_ctor[OF assms] by simp
next
  case (snoc v vs)
  let ?s = "snd (run_soa (map PushBack vs) s0)"
  let ?k = "min (length vs) (unat c)"
  have st: "snd (run_soa (map PushBack (vs @ [v])) s0) = snd (push_back_soa v ?s)"
    by (simp add: run_soa_snoc handle_outcome_def split: prod.splits sum.splits)
  show ?case
  proof (cases "length vs < unat c")
    case True
    then have k: "?k = length vs" "min (length (vs @ [v])) (unat c) = Suc (length vs)"
      by simp_all
    have fl: "free_list_soa ?s = map int (rev [Suc (length vs)..<unat c]) @ [int (length vs)]"
      using snoc.IH True k by (simp add: rev_upt_last)
    have w: "wf_soa ?s (map int [0..<length vs])"
      using snoc.IH k by simp
    from emplace_back_wf[OF w fl, of v] obtain s' where
      s': "emplace_back_soa v ?s = (Inr \<lparr>index = int (length vs),
             generation = generations_soa ?s ! nat (int (length vs)) + 1\<rparr>, s')"
        "wf_soa s' (map int [0..<length vs] @ [int (length vs)])"
        "values_soa s' = (values_soa ?s)[nat (int (length vs)) := v]"
        "free_list_soa s' = map int (rev [Suc (length vs)..<unat c])"
      by auto
    have len: "length (values_soa ?s) = unat c" using snoc.IH by simp
    have "take (Suc (length vs)) ((values_soa ?s)[length vs := v])
        = take (length vs) (values_soa ?s) @ [v]"
      using True len by (simp add: take_Suc_conv_app_nth)
    also have "\<dots> = take (unat c) (vs @ [v])"
      using snoc.IH True k by simp
    finally have vals: "take (Suc (length vs)) ((values_soa ?s)[length vs := v])
        = take (unat c) (vs @ [v])" .
    show ?thesis
      unfolding st push_back_soa_def s'(1) snd_conv k(2)
      using s'(2,3,4) vals len by simp
  next
    case False
    then have k: "?k = unat c" "min (length (vs @ [v])) (unat c) = unat c"
      by simp_all
    have "free_list_soa ?s = []"
      using snoc.IH k by simp
    then have "snd (push_back_soa v ?s) = ?s"
      by (simp add: push_back_soa_def emplace_back_soa_def allocate_node_full)
    then show ?thesis
      unfolding st k(2) using snoc.IH k False by simp
  qed
qed

lemma push_front_run:
  assumes "ArrayLinkedList_soa d c = Inr s0" and "unat c \<le> 2 ^ 31"
  shows "wf_soa (snd (run_soa (map PushFront vs) s0))
           (rev (map int [0..<min (length vs) (unat c)]))
       \<and> free_list_soa (snd (run_soa (map PushFront vs) s0))
           = map int (rev [min (length vs) (unat c)..<unat c])
       \<and> take (min (length vs) (unat c)) (values_soa (snd (run_soa (map PushFront vs) s0)))
           = take (unat c) vs
       \<and> length (values_soa (snd (run_soa (map PushFront vs) s0))) = unat c"
proof (induction vs rule: rev_induct)
  case Nil
  then show ?case using wf_ctor[OF assms] by simp
next
  case (snoc v vs)
  let ?s = "snd (run_soa (map PushFront vs) s0)"
  let ?k = "min (length vs) (unat c)"
  have st: "snd (run_soa (map PushFront (vs @ [v])) s0) = snd (push_front_soa v ?s)"
    by (simp add: run_soa_snoc handle_outcome_def split: prod.splits sum.splits)
  show ?case
  proof (cases "length vs < unat c")
    case True
    then have k: "?k = length vs" "min (length (vs @ [v])) (unat c) = Suc (length vs)"
      by simp_all
    have fl: "free_list_soa ?s = map int (rev [Suc (length vs)..<unat c]) @ [int (length vs)]"
      using snoc.IH True k by (simp add: rev_upt_last)
    have w: "wf_soa ?s (rev (map int [0..<length vs]))"
      using snoc.IH k by simp
    from emplace_front_wf[OF w fl, of v] obtain s' where
      s': "emplace_front_soa v ?s = (Inr \<lparr>index = int (length vs),
             generation = generations_soa ?s ! nat (int (length vs)) + 1\<rparr>, s')"
        "wf_soa s' (int (length vs) # rev (map int [0..<length vs]))"
        "values_soa s' = (values_soa ?s)[nat (int (length vs)) := v]"
        "free_list_soa s' = map int (rev [Suc (length vs)..<unat c])"
      by auto
    have len: "length (values_soa ?s) = unat c" using snoc.IH by simp
    have "take (Suc (length vs)) ((values_soa ?s)[length vs := v])
        = take (length vs) (values_soa ?s) @ [v]"
      using True len by (simp add: take_Suc_conv_app_nth)
    also have "\<dots> = take (unat c) (vs @ [v])"
      using snoc.IH True k by simp
    finally have vals: "take (Suc (length vs)) ((values_soa ?s)[length vs := v])
        = take (unat c) (vs @ [v])" .
    show ?thesis
      unfolding st push_front_soa_def s'(1) snd_conv k(2)
      using s'(2,3,4) vals len by simp
  next
    case False
    then have k: "?k = unat c" "min (length (vs @ [v])) (unat c) = unat c"
      by simp_all
    have "free_list_soa ?s = []"
      using snoc.IH k by simp
    then have "snd (push_front_soa v ?s) = ?s"
      by (simp add: push_front_soa_def emplace_front_soa_def allocate_node_full)
    then show ?thesis
      unfolding st k(2) using snoc.IH k False by simp
  qed
qed

text \<open>
  Claim C7. On a fresh list (capacity within the range of the index type), after a
  sequence of \<^verbatim>\<open>push_back\<close> calls and nothing else, \<^verbatim>\<open>for_each\<close> returns and visits
  the stored values in insertion order; after a sequence of \<^verbatim>\<open>push_front\<close> calls
  and nothing else, in reverse insertion order. The stored values are those of the
  first \<open>capacity\<close> calls (later calls fail with \<open>CapacityExhausted\<close> and store
  nothing); when the calls are at most \<open>capacity\<close>, all of them.
\<close>

theorem push_order:
  assumes "ArrayLinkedList_soa d c = Inr s0" and "unat c \<le> 2 ^ 31"
  shows "map_option (map fst) (for_each_soa (snd (run_soa (map PushBack vs) s0)))
           = Some (take (unat c) vs)
       \<and> map_option (map fst) (for_each_soa (snd (run_soa (map PushFront vs) s0)))
           = Some (rev (take (unat c) vs))
       \<and> (length vs \<le> unat c \<longrightarrow>
            map_option (map fst) (for_each_soa (snd (run_soa (map PushBack vs) s0))) = Some vs
            \<and> map_option (map fst) (for_each_soa (snd (run_soa (map PushFront vs) s0)))
                = Some (rev vs))"
proof -
  let ?k = "min (length vs) (unat c)"
  let ?b = "snd (run_soa (map PushBack vs) s0)"
  let ?f = "snd (run_soa (map PushFront vs) s0)"
  note b = push_back_run[OF assms, of vs]
  note f = push_front_run[OF assms, of vs]
  have kb: "?k \<le> length (values_soa ?b)" and kf: "?k \<le> length (values_soa ?f)"
    using b f by simp_all
  have "map_option (map fst) (for_each_soa ?b) = Some (map (\<lambda>i. values_soa ?b ! i) [0..<?k])"
    using for_each_wf[of ?b "map int [0..<?k]"] b by (simp add: comp_def)
  then have 1: "map_option (map fst) (for_each_soa ?b) = Some (take (unat c) vs)"
    using map_nth_take[OF kb] b by simp
  have "map_option (map fst) (for_each_soa ?f)
      = Some (rev (map (\<lambda>i. values_soa ?f ! i) [0..<?k]))"
    using for_each_wf[of ?f "rev (map int [0..<?k])"] f by (simp add: comp_def rev_map)
  then have 2: "map_option (map fst) (for_each_soa ?f) = Some (rev (take (unat c) vs))"
    using map_nth_take[OF kf] f by simp
  show ?thesis
    unfolding 1 2 by simp
qed

theorem push_order_witness:
  "ArrayLinkedList_soa (0 :: int) 3 = Inr
      \<lparr>values_soa = [0, 0, 0], next_soa = [- 1, - 1, - 1], prev_soa = [- 1, - 1, - 1],
       generations_soa = [0, 0, 0], free_list_soa = [2, 1, 0], head_soa = - 1,
       tail_soa = - 1, size_soa = 0\<rparr>
   \<and> unat (3 :: usize) \<le> 2 ^ 31
   \<and> length [5 :: int, 6, 7] \<le> unat (3 :: usize)
   \<and> map_option (map fst) (for_each_soa (snd (run_soa (map PushBack [5 :: int, 6, 7])
        \<lparr>values_soa = [0, 0, 0], next_soa = [- 1, - 1, - 1], prev_soa = [- 1, - 1, - 1],
         generations_soa = [0, 0, 0], free_list_soa = [2, 1, 0], head_soa = - 1,
         tail_soa = - 1, size_soa = 0\<rparr>))) = Some [5, 6, 7]
   \<and> map_option (map fst) (for_each_soa (snd (run_soa (map PushFront [5 :: int, 6, 7])
        \<lparr>values_soa = [0, 0, 0], next_soa = [- 1, - 1, - 1], prev_soa = [- 1, - 1, - 1],
         generations_soa = [0, 0, 0], free_list_soa = [2, 1, 0], head_soa = - 1,
         tail_soa = - 1, size_soa = 0\<rparr>))) = Some [7, 6, 5]"
proof -
  let ?s0 = "\<lparr>values_soa = [0 :: int, 0, 0], next_soa = [- 1, - 1, - 1],
       prev_soa = [- 1, - 1, - 1], generations_soa = [0, 0, 0], free_list_soa = [2, 1, 0],
       head_soa = - 1, tail_soa = - 1, size_soa = 0\<rparr>"
  have 1: "ArrayLinkedList_soa (0 :: int) 3 = Inr ?s0" by code_simp
  have 2: "unat (3 :: usize) \<le> 2 ^ 31" by simp
  have 3: "length [5 :: int, 6, 7] \<le> unat (3 :: usize)" by simp
  from push_order [OF 1 2, of "[5, 6, 7]"] 3
  have 4: "map_option (map fst) (for_each_soa (snd (run_soa (map PushBack [5 :: int, 6, 7]) ?s0)))
        = Some [5, 6, 7]"
    and 5: "map_option (map fst) (for_each_soa (snd (run_soa (map PushFront [5 :: int, 6, 7]) ?s0)))
        = Some [7, 6, 5]"
    by simp_all
  show ?thesis
    by (intro conjI 1 2 3 4 5)
qed

section \<open>Size, free-list and the count of insertions and removals\<close>

lemma exec_count:
  assumes "exec_soa c s = (r, s')"
  shows "(is_insert c \<and> \<not> is_failed r \<longrightarrow>
            Suc (length (free_list_soa s')) = length (free_list_soa s)
            \<and> size_soa s' = size_soa s + 1)
       \<and> (is_remove c \<and> \<not> is_failed r \<longrightarrow>
            length (free_list_soa s') = Suc (length (free_list_soa s))
            \<and> size_soa s' = size_soa s - 1)
       \<and> (\<not> (is_insert c \<and> \<not> is_failed r) \<and> \<not> (is_remove c \<and> \<not> is_failed r) \<longrightarrow> s' = s)
       \<and> (r = Failed CapacityExhausted \<longrightarrow> is_insert c \<and> free_list_soa s = [])"
  using assms
  by (cases c)
    (auto simp: outcome_defs soa_op_defs release_node_soa_def ensure_valid_handle_soa_def
      Let_def split: sum.splits prod.splits if_splits)

lemma run_soa_length: "length (fst (run_soa cs s)) = length cs"
  by (induction cs arbitrary: s) (simp_all add: case_prod_beta)

lemma run_soa_take:
  "run_soa (take k cs) s = (take k (fst (run_soa cs s)), snd (run_soa (take k cs) s))"
proof -
  have "run_soa (take k cs @ drop k cs) s = run_soa cs s" by simp
  then have "fst (run_soa cs s) =
      fst (run_soa (take k cs) s) @ fst (run_soa (drop k cs) (snd (run_soa (take k cs) s)))"
    by (metis fst_conv run_soa_append)
  then have "take k (fst (run_soa cs s)) = fst (run_soa (take k cs) s)"
    by (simp add: run_soa_length min_def)
  then show ?thesis by (metis prod.collapse)
qed

lemma run_soa_nth:
  assumes "k < length cs"
  shows "exec_soa (cs ! k) (snd (run_soa (take k cs) s))
       = (fst (run_soa cs s) ! k, snd (run_soa (take (Suc k) cs) s))"
proof -
  have "take (Suc k) cs = take k cs @ [cs ! k]"
    using assms by (simp add: take_Suc_conv_app_nth)
  then have "run_soa (take (Suc k) cs) s =
      (fst (run_soa (take k cs) s) @ fst (run_soa [cs ! k] (snd (run_soa (take k cs) s))),
       snd (run_soa [cs ! k] (snd (run_soa (take k cs) s))))"
    by (simp only: run_soa_append)
  moreover have "fst (run_soa (take (Suc k) cs) s) = take (Suc k) (fst (run_soa cs s))"
    by (metis fst_conv run_soa_take)
  moreover have "fst (run_soa (take k cs) s) = take k (fst (run_soa cs s))"
    by (metis fst_conv run_soa_take)
  moreover have "take (Suc k) (fst (run_soa cs s))
      = take k (fst (run_soa cs s)) @ [fst (run_soa cs s) ! k]"
    using assms by (simp add: take_Suc_conv_app_nth run_soa_length)
  ultimately show ?thesis
    by (cases "exec_soa (cs ! k) (snd (run_soa (take k cs) s))") (simp add: case_prod_beta)
qed

lemma run_count:
  "run_soa cs s = (rs, s') \<Longrightarrow>
     int (length (free_list_soa s')) + int (inserts_done cs rs)
       = int (length (free_list_soa s)) + int (removes_done cs rs)
     \<and> size_soa s' + word_of_nat (removes_done cs rs)
       = size_soa s + word_of_nat (inserts_done cs rs)"
proof (induction cs arbitrary: s rs)
  case Nil
  then show ?case by simp
next
  case (Cons c cs)
  obtain r s1 where e: "exec_soa c s = (r, s1)" by (cases "exec_soa c s")
  obtain rs1 where r1: "run_soa cs s1 = (rs1, s')" and rs: "rs = r # rs1"
    using Cons.prems e by (auto split: prod.splits)
  note ih = Cons.IH[OF r1]
  note ec = exec_count[OF e]
  consider (ins) "is_insert c \<and> \<not> is_failed r" | (rem) "is_remove c \<and> \<not> is_failed r"
    | (none) "\<not> (is_insert c \<and> \<not> is_failed r) \<and> \<not> (is_remove c \<and> \<not> is_failed r)"
    by blast
  then show ?case
  proof cases
    case ins
    then have "\<not> is_remove c" by (cases c) auto
    then show ?thesis using ins ih ec rs by (auto simp: algebra_simps)
  next
    case rem
    then have "\<not> is_insert c" by (cases c) auto
    then show ?thesis using rem ih ec rs by (auto simp: algebra_simps)
  next
    case none
    then show ?thesis using ih ec rs by auto
  qed
qed

lemma ctor_counts:
  assumes "ArrayLinkedList_soa d c = Inr s0"
  shows "length (free_list_soa s0) = unat c" and "size_soa s0 = 0"
proof -
  have "length (fill_free_list n fl) = length fl + n" for n fl
    by (induction n arbitrary: fl) auto
  then show "length (free_list_soa s0) = unat c" and "size_soa s0 = 0"
    using assms by (auto simp: ArrayLinkedList_soa_def split: if_splits)
qed

lemma size_from_counts:
  assumes "ArrayLinkedList_soa d c = Inr s0" and "run_soa cs s0 = (rs, s)"
    and "removes_done cs rs \<le> inserts_done cs rs"
  shows "unat (size_soa s) = inserts_done cs rs - removes_done cs rs"
    and "inserts_done cs rs - removes_done cs rs + length (free_list_soa s) = unat c"
proof -
  note rc = run_count[OF assms(2)]
  note c0 = ctor_counts[OF assms(1)]
  let ?n = "inserts_done cs rs - removes_done cs rs"
  show fl: "?n + length (free_list_soa s) = unat c"
    using rc c0 assms(3) by linarith
  have "size_soa s + word_of_nat (removes_done cs rs)
      = word_of_nat ?n + word_of_nat (removes_done cs rs)"
    using rc c0 assms(3) by (simp flip: of_nat_add)
  then have "size_soa s = word_of_nat ?n" by simp
  moreover have "?n < 2 ^ LENGTH(64)"
    using fl unsigned_less [of c, where ?'a = nat] by simp
  ultimately show "unat (size_soa s) = ?n"
    using of_nat_inverse[of ?n "size_soa s"] by simp
qed

text \<open>
  Claim C3. Take any sequence of calls on a freshly constructed list and count, along
  it, the insertions and removals that succeed. If the count of removals never
  exceeds the count of insertions (the number of live elements never goes below 0),
  then \<^verbatim>\<open>size()\<close> at the end is insertions minus removals, and this number is at
  most the capacity. An insertion fails with \<open>CapacityExhausted\<close> only when the
  free-list is empty, and then the size equals the capacity (the attempted size would
  exceed it); while the size is below the capacity no call fails with
  \<open>CapacityExhausted\<close>.
\<close>

theorem size_counts_and_capacity:
  assumes "ArrayLinkedList_soa d c = Inr s0" and "run_soa cs s0 = (rs, s)"
    and "\<forall>k \<le> length cs.
           removes_done (take k cs) (take k rs) \<le> inserts_done (take k cs) (take k rs)"
  shows "unat (size_soa s) = inserts_done cs rs - removes_done cs rs
       \<and> inserts_done cs rs - removes_done cs rs \<le> unat c
       \<and> (\<forall>k < length cs. rs ! k = Failed CapacityExhausted \<longrightarrow>
             is_insert (cs ! k)
             \<and> free_list_soa (snd (run_soa (take k cs) s0)) = []
             \<and> unat (size_soa (snd (run_soa (take k cs) s0))) = unat c)
       \<and> (\<forall>k < length cs. unat (size_soa (snd (run_soa (take k cs) s0))) < unat c \<longrightarrow>
             rs ! k \<noteq> Failed CapacityExhausted)"
proof -
  have rs: "rs = fst (run_soa cs s0)" using assms(2) by simp
  have "removes_done cs rs \<le> inserts_done cs rs"
    using assms(3)[rule_format, of "length cs"] rs by (simp add: run_soa_length)
  note fin = size_from_counts[OF assms(1,2) this]
  have full: "is_insert (cs ! k)
             \<and> free_list_soa (snd (run_soa (take k cs) s0)) = []
             \<and> unat (size_soa (snd (run_soa (take k cs) s0))) = unat c"
    if k: "k < length cs" and f: "rs ! k = Failed CapacityExhausted" for k
  proof -
    let ?sk = "snd (run_soa (take k cs) s0)"
    have pre: "run_soa (take k cs) s0 = (take k rs, ?sk)"
      using run_soa_take[of k cs s0] rs by simp
    have le: "removes_done (take k cs) (take k rs) \<le> inserts_done (take k cs) (take k rs)"
      using assms(3) k by simp
    note pk = size_from_counts[OF assms(1) pre le]
    have "exec_soa (cs ! k) ?sk = (Failed CapacityExhausted, snd (run_soa (take (Suc k) cs) s0))"
      using run_soa_nth[OF k, of s0] rs f by simp
    from exec_count[OF this] have "is_insert (cs ! k)" "free_list_soa ?sk = []"
      by simp_all
    then show ?thesis using pk by simp
  qed
  then show ?thesis
    using fin by auto
qed

theorem size_counts_and_capacity_witness:
  "ArrayLinkedList_soa (0 :: int) 2 = Inr
      \<lparr>values_soa = [0, 0], next_soa = [- 1, - 1], prev_soa = [- 1, - 1],
       generations_soa = [0, 0], free_list_soa = [1, 0], head_soa = - 1, tail_soa = - 1,
       size_soa = 0\<rparr>
   \<and> run_soa [PushBack 1, PushBack 2, PushFront 3, PopFront,
        Erase \<lparr>index = 1, generation = 1\<rparr>]
       \<lparr>values_soa = [0 :: int, 0], next_soa = [- 1, - 1], prev_soa = [- 1, - 1],
        generations_soa = [0, 0], free_list_soa = [1, 0], head_soa = - 1, tail_soa = - 1,
        size_soa = 0\<rparr>
     = ([Handle \<lparr>index = 0, generation = 1\<rparr>, Handle \<lparr>index = 1, generation = 1\<rparr>,
         Failed CapacityExhausted, Popped 1, Done],
        \<lparr>values_soa = [1, 2], next_soa = [- 1, - 1], prev_soa = [- 1, - 1],
         generations_soa = [1, 1], free_list_soa = [0, 1], head_soa = - 1, tail_soa = - 1,
         size_soa = 0\<rparr>)
   \<and> list_all
        (\<lambda>k. removes_done
           (take k [PushBack (1 :: int), PushBack 2, PushFront 3, PopFront,
              Erase \<lparr>index = 1, generation = 1\<rparr>])
           (take k [Handle \<lparr>index = 0, generation = 1\<rparr>, Handle \<lparr>index = 1, generation = 1\<rparr>,
              Failed CapacityExhausted, Popped 1, Done])
         \<le> inserts_done
           (take k [PushBack (1 :: int), PushBack 2, PushFront 3, PopFront,
              Erase \<lparr>index = 1, generation = 1\<rparr>])
           (take k [Handle \<lparr>index = 0, generation = 1\<rparr>, Handle \<lparr>index = 1, generation = 1\<rparr>,
              Failed CapacityExhausted, Popped 1, Done]))
        [0, 1, 2, 3, 4, 5]
   \<and> unat (size_soa \<lparr>values_soa = [1 :: int, 2], next_soa = [- 1, - 1],
        prev_soa = [- 1, - 1], generations_soa = [1, 1], free_list_soa = [0, 1],
        head_soa = - 1, tail_soa = - 1, size_soa = 0\<rparr>) = 2 - 2
   \<and> unat (size_soa (snd (run_soa (take 2 [PushBack (1 :: int), PushBack 2, PushFront 3,
        PopFront, Erase \<lparr>index = 1, generation = 1\<rparr>])
       \<lparr>values_soa = [0 :: int, 0], next_soa = [- 1, - 1], prev_soa = [- 1, - 1],
        generations_soa = [0, 0], free_list_soa = [1, 0], head_soa = - 1, tail_soa = - 1,
        size_soa = 0\<rparr>))) = unat (2 :: usize)"
proof -
  let ?init = "\<lparr>values_soa = [0 :: int, 0], next_soa = [- 1, - 1], prev_soa = [- 1, - 1],
       generations_soa = [0, 0], free_list_soa = [1, 0], head_soa = - 1, tail_soa = - 1,
       size_soa = 0\<rparr>"
  let ?final = "\<lparr>values_soa = [1 :: int, 2], next_soa = [- 1, - 1], prev_soa = [- 1, - 1],
         generations_soa = [1, 1], free_list_soa = [0, 1], head_soa = - 1, tail_soa = - 1,
         size_soa = 0\<rparr>"
  let ?cs = "[PushBack (1 :: int), PushBack 2, PushFront 3, PopFront,
        Erase \<lparr>index = 1, generation = 1\<rparr>]"
  let ?rs = "[Handle \<lparr>index = 0, generation = 1\<rparr>, Handle \<lparr>index = 1, generation = 1\<rparr>,
         Failed CapacityExhausted, Popped (1 :: int), Done]"
  have 1: "ArrayLinkedList_soa (0 :: int) 2 = Inr ?init" by code_simp
  have 2: "run_soa ?cs ?init = (?rs, ?final)"
    by (simp add: outcome_defs soa_op_defs release_node_soa_def ensure_valid_handle_soa_def
        Let_def kNull_def)
  have 3: "\<forall>k \<le> length ?cs.
      removes_done (take k ?cs) (take k ?rs) \<le> inserts_done (take k ?cs) (take k ?rs)"
  proof (intro allI impI)
    fix k :: nat
    assume "k \<le> length ?cs"
    then have "k = 0 \<or> k = 1 \<or> k = 2 \<or> k = 3 \<or> k = 4 \<or> k = 5" by auto
    then show "removes_done (take k ?cs) (take k ?rs) \<le> inserts_done (take k ?cs) (take k ?rs)"
      by (elim disjE) (simp_all add: numeral_2_eq_2 numeral_3_eq_3 eval_nat_numeral)
  qed
  note spec = size_counts_and_capacity [OF 1 2 3]
  have 4: "unat (size_soa ?final) = 2 - 2"
    using spec by simp
  have "?rs ! 2 = Failed CapacityExhausted" "(2 :: nat) < length ?cs" by simp_all
  then have 5: "unat (size_soa (snd (run_soa (take 2 ?cs) ?init))) = unat (2 :: usize)"
    using spec by blast
  have 6: "list_all
      (\<lambda>k. removes_done (take k ?cs) (take k ?rs) \<le> inserts_done (take k ?cs) (take k ?rs))
      [0, 1, 2, 3, 4, 5]"
    using 3 by simp
  show ?thesis
    by (intro conjI 1 2 6 4 5)
qed

end
